theory Spec2Isabelle
  imports Complex_Main "HOL-Library.Word"
begin

unbundle bit_operations_syntax

section \<open>Values, errors and observable effects\<close>

text \<open>
  The cluster client of \<^verbatim>\<open>src/redisClustr.js\<close> is event driven: every function and every
  handler runs to completion on one thread.  Each of them is modelled as a function from
  the cluster object to the cluster object; what it does to the outside world (commands
  sent to a node client, callbacks invoked, timers armed) is appended to the \<open>trace\<close>
  field in the order the source performs it.

  JavaScript values are kept as far as the code inspects them: \<open>Num\<close> holds the integral
  numbers (a key such as \<open>0\<close>), \<open>Buf\<close> a Buffer with its text, \<open>Func\<close> a function of the
  caller, identified by a number.
\<close>

datatype jsval =
    Undefined
  | Null
  | Bool bool
  | Num int
  | Str string
  | Buf string
  | Arr "jsval list"
  | Func nat

text \<open>JavaScript truthiness, as used by \<^verbatim>\<open>if (!key)\<close>.\<close>

fun truthy :: "jsval \<Rightarrow> bool" where
  "truthy Undefined = False"
| "truthy Null = False"
| "truthy (Bool b) = b"
| "truthy (Num n) = (n \<noteq> 0)"
| "truthy (Str s) = (s \<noteq> [])"
| "truthy (Buf b) = True"
| "truthy (Arr xs) = True"
| "truthy (Func f) = True"

text \<open>
  An \<^verbatim>\<open>Error\<close> object: its \<^verbatim>\<open>message\<close>, its \<^verbatim>\<open>code\<close> (set by the node client on replies
  such as CLUSTERDOWN) and the \<^verbatim>\<open>errors\<close> property that \<^verbatim>\<open>getSlots\<close> attaches.
\<close>

datatype error = Error (message: string) (code: "string option") (errors: "error list option")

abbreviation new_Error :: "string \<Rightarrow> error" where
  "new_Error msg \<equiv> Error msg None None"

text \<open>An exception that leaves the running handler.\<close>

datatype exn = TypeError | NotModelled

text \<open>The per-command descriptor \<^verbatim>\<open>conf\<close>; the code reads \<^verbatim>\<open>conf.readOnly\<close> only.\<close>

record conf =
  conf_readOnly :: bool

text \<open>
  Callbacks.  \<open>Fn n\<close> is a function supplied by the caller.  \<open>DefaultCb\<close> is the closure
  \<^verbatim>\<open>function(err) { if (err) self.emit('error', err); }\<close> of \<^verbatim>\<open>doCommand\<close>, and
  \<open>SlotsCb cmd conf args\<close> the closure that \<^verbatim>\<open>doCommand\<close> hands to \<^verbatim>\<open>getSlots\<close> when the
  slot map is empty.  Invoking a callback is recorded as a \<open>Call\<close> event.  What a function
  of the caller does is not known here; it is taken to return normally, and whatever it
  calls on the cluster object is a step of its own.  The bodies of the
  two closures are the functions \<open>defaultCb\<close> and \<open>slotsCb\<close> below.  Called with an error, a
  closure only hands the error on, to a function of the caller or to the listeners of
  \<^verbatim>\<open>error\<close>, so that body is run as a step of its own.  Called without an error, the closure
  \<open>SlotsCb\<close> calls \<^verbatim>\<open>doCommand\<close>, which reads the slot map and may call \<^verbatim>\<open>getSlots\<close>; the only
  caller that does so is the loop of \<^verbatim>\<open>runCbs\<close>, and there the body is run in place, inside the
  loop (\<open>apply_cb\<close>).
\<close>

datatype callback =
    Fn nat
  | DefaultCb
  | SlotsCb string conf "jsval list"

text \<open>What a callback receives after the error argument.\<close>

datatype payload =
    NoValue
  | Value jsval
  | SlotMap "nat list option list"

datatype event =
    CreateClient "string option" string
  | Invoke nat string "jsval list"
  | SendCommand nat string "string list"
  | ClientQuit nat bool
  | Call callback "error option" payload
  | CallQuit callback "error list option"
  | Emit string "error option"
  | SetTimeout rat
  | SetInterval nat
  | ClearTimeout
  | ClearInterval

section \<open>The cluster object\<close>

record config =
  servers :: "(string \<times> string) list"
  slotInterval :: "nat option"
  readyTimeout :: "nat option"
  maxQueueLength :: "nat option"
  queueShift :: "bool option"
  slaves :: "string option"

text \<open>
  A node client is an object of the underlying single-node library.  The code reads its
  \<^verbatim>\<open>address\<close> and \<^verbatim>\<open>ready\<close> properties and keeps its own \<^verbatim>\<open>readOnly\<close> flag on it.  Node
  clients live in a store (\<open>clients\<close>) and are referred to by their index, because the
  pool and the slot map share them.
\<close>

record client =
  address :: string
  is_ready :: bool
  readOnly :: bool
  connected :: bool
  emitted_end :: bool

text \<open>
  The local variables of one running \<^verbatim>\<open>getSlots\<close> call that its pending continuation
  captures: \<^verbatim>\<open>exclude\<close>, \<^verbatim>\<open>tryErrors\<close>, whether the variable \<^verbatim>\<open>readyTimeout\<close> holds a
  timer (\<open>timer\<close>), and where it waits.  \<open>AwaitReady\<close>: the \<^verbatim>\<open>tryClient\<close> listener is
  registered with \<^verbatim>\<open>self.once('ready', ...)\<close>.  \<open>AwaitReply cid\<close>: the slot-enumeration
  command \<^verbatim>\<open>cluster slots\<close> has been sent to client \<open>cid\<close> and its reply is outstanding.
\<close>

datatype phase = AwaitReady | AwaitReply nat

record refresh =
  phase :: phase
  timer :: bool
  exclude :: "string list"
  tryErrors :: "error list option"

text \<open>
  \<open>connections\<close> is the object \<^verbatim>\<open>self.connections\<close>: keys in insertion order, each bound to
  a client or to \<^verbatim>\<open>null\<close> (\<open>None\<close>).  \<open>slots\<close> is the sparse array \<^verbatim>\<open>self.slots\<close> (\<open>None\<close> is a
  hole).  \<open>slotQ\<close> is \<^verbatim>\<open>self._slotQ\<close>: \<open>None\<close> when it is \<^verbatim>\<open>undefined\<close> or \<^verbatim>\<open>false\<close>, otherwise
  the queue's content, eldest first.  \<open>refreshes\<close> holds the continuations of the
  \<^verbatim>\<open>getSlots\<close> calls that are still running.  \<open>rands\<close> are the future outcomes of
  \<^verbatim>\<open>Math.random()\<close>: \<^verbatim>\<open>Math.floor(Math.random() * n)\<close> is the next element modulo \<open>n\<close>.
\<close>

record cluster =
  config :: config
  slots :: "nat list option list"
  connections :: "(string \<times> nat option) list"
  ready :: bool
  quitting :: bool
  ended :: bool
  slotQ :: "callback list option"
  clients :: "client list"
  refreshes :: "refresh list"
  rands :: "nat list"
  trace :: "event list"

type_synonym result = "exn option \<times> cluster"

definition emit :: "event list \<Rightarrow> cluster \<Rightarrow> cluster" where
  "emit es c = c\<lparr>trace := trace c @ es\<rparr>"

definition random_index :: "cluster \<Rightarrow> nat \<Rightarrow> nat \<times> cluster" where
  "random_index c n =
     (case rands c of
        [] \<Rightarrow> (0, c)
      | r # rs \<Rightarrow> ((if n = 0 then 0 else r mod n), c\<lparr>rands := rs\<rparr>))"

definition client_of :: "cluster \<Rightarrow> nat \<Rightarrow> client option" where
  "client_of c cid = (if cid < length (clients c) then Some (clients c ! cid) else None)"

text \<open>\<^verbatim>\<open>self.connections[name]\<close>: the live client bound to \<open>name\<close>, if any.\<close>

definition connection :: "cluster \<Rightarrow> string \<Rightarrow> nat option" where
  "connection c name = (case map_of (connections c) name of Some (Some cid) \<Rightarrow> Some cid | _ \<Rightarrow> None)"

text \<open>Assignment \<^verbatim>\<open>obj[k] = v\<close>: an existing key keeps its place, a new one goes last.\<close>

fun assign :: "string \<Rightarrow> 'v \<Rightarrow> (string \<times> 'v) list \<Rightarrow> (string \<times> 'v) list" where
  "assign k v [] = [(k, v)]"
| "assign k v (p # ps) = (if fst p = k then (k, v) # ps else p # assign k v ps)"

section \<open>Node client pool\<close>

text \<open>
  \<^verbatim>\<open>host + ':' + port\<close>; a port that is \<^verbatim>\<open>undefined\<close> is rendered as the text
  \<^verbatim>\<open>undefined\<close>.
\<close>

definition endpoint :: "string \<Rightarrow> string option \<Rightarrow> string" where
  "endpoint host port = host @ '':'' @ (case port of None \<Rightarrow> ''undefined'' | Some p \<Rightarrow> p)"

text \<open>
  \<^verbatim>\<open>getClient(port, host)\<close> (lines 42-96).  The factory \<^verbatim>\<open>createClient\<close> is external; the
  client it returns is not ready yet and carries the endpoint as its \<^verbatim>\<open>address\<close>.  The
  three listeners attached here are the functions \<open>onError\<close>, \<open>onReady\<close> and \<open>onEnd\<close>.
\<close>

definition getClient :: "cluster \<Rightarrow> string option \<Rightarrow> string \<Rightarrow> cluster \<times> nat" where
  "getClient c port host =
     (let name = endpoint host port in
      case connection c name of
        Some cid \<Rightarrow> (c, cid)
      | None \<Rightarrow>
          (let cid = length (clients c);
               cli = \<lparr>address = name, is_ready = False, readOnly = False,
                      connected = False, emitted_end = False\<rparr>
           in (c\<lparr>clients := clients c @ [cli],
                 connections := assign name (Some cid) (connections c),
                 trace := trace c @ [CreateClient port host]\<rparr>, cid)))"

definition client_ready :: "cluster \<Rightarrow> nat \<Rightarrow> bool" where
  "client_ready c cid = (case client_of c cid of Some cli \<Rightarrow> is_ready cli | None \<Rightarrow> False)"

text \<open>
  \<^verbatim>\<open>getRandomConnection(exclude)\<close> (lines 98-108).  \<open>exclude\<close> is \<open>None\<close> when the argument
  is omitted.  With no available connection \<^verbatim>\<open>available[0]\<close> is \<^verbatim>\<open>undefined\<close> and so is
  the result (every key of the pool contains a colon, so none is \<^verbatim>\<open>'undefined'\<close>).
\<close>

definition available :: "cluster \<Rightarrow> string list option \<Rightarrow> string list" where
  "available c excl =
     filter (\<lambda>f. f \<noteq> [] \<and>
                 (case connection c f of Some cid \<Rightarrow> client_ready c cid | None \<Rightarrow> False) \<and>
                 (case excl of None \<Rightarrow> True | Some ex \<Rightarrow> f \<notin> set ex))
            (map fst (connections c))"

definition getRandomConnection :: "cluster \<Rightarrow> string list option \<Rightarrow> nat option \<times> cluster" where
  "getRandomConnection c excl =
     (let av = available c excl;
          (randomIndex, c') = random_index c (length av)
      in ((if randomIndex < length av then connection c' (av ! randomIndex) else None), c'))"

section \<open>Slot discovery\<close>

text \<open>
  \<^verbatim>\<open>runCbs\<close> (lines 130-136) shifts the queued callbacks off one by one, calls each with its
  own arguments, and sets \<^verbatim>\<open>self._slotQ = false\<close> when the queue is empty.  The loop is the
  function \<open>runCbs\<close> of the section on draining the queue, which needs \<^verbatim>\<open>doCommand\<close>.
  \<^verbatim>\<open>tryClient\<close> and the ready timer call \<^verbatim>\<open>runCbs(err)\<close> with an error as the only argument.
  No callback called with an error touches the queue, so that call is written out here
  as \<open>runCbs_error\<close>: every callback queued is called with the error, in order, and the queue
  is reset.  Lemma \<open>runCbs_with_error\<close> shows that the loop computes just this.  On
  \<^verbatim>\<open>false\<close> the call \<^verbatim>\<open>self._slotQ.shift()\<close> is a TypeError.
\<close>

definition runCbs_error :: "cluster \<Rightarrow> error \<Rightarrow> result" where
  "runCbs_error c e =
     (case slotQ c of
        None \<Rightarrow> (Some TypeError, c)
      | Some q \<Rightarrow> (None, c\<lparr>trace := trace c @ map (\<lambda>cb. Call cb (Some e) NoValue) q, slotQ := None\<rparr>))"

text \<open>
  \<^verbatim>\<open>tryClient\<close> (lines 140-190), up to the moment the enumeration command is sent; the
  reply handler is \<open>slotsReply\<close>, further down.  \<open>r\<close> holds the variables of the enclosing \<^verbatim>\<open>getSlots\<close>.
\<close>

definition tryClient :: "cluster \<Rightarrow> refresh \<Rightarrow> result" where
  "tryClient c r =
     (let c0 = (if timer r then emit [ClearTimeout] c else c) in
      if quitting c0 then runCbs_error c0 (new_Error ''cluster is quitting'')
      else
        (case getRandomConnection c0 (Some (exclude r)) of
           (None, c1) \<Rightarrow>
             runCbs_error c1 (Error (''couldn'' @ [CHR 0x27] @ ''t get slot allocation'') None (tryErrors r))
         | (Some cid, c1) \<Rightarrow>
             (None, c1\<lparr>trace := trace c1 @ [SendCommand cid ''cluster'' [''slots'']],
                       refreshes := refreshes c1 @ [r\<lparr>phase := AwaitReply cid\<rparr>]\<rparr>)))"

text \<open>
  \<^verbatim>\<open>getSlots(cb)\<close> (lines 110-203).  \<open>getSlots_start\<close> is the part from line 128 on.
  \<^verbatim>\<open>new Queue(n)\<close> is an empty queue whatever \<open>n\<close> is: the argument of the
  double-ended queue is its initial capacity.
\<close>

definition getSlots_start :: "bool \<Rightarrow> cluster \<Rightarrow> result" where
  "getSlots_start alreadyRunning c =
     (if alreadyRunning then (None, c)
      else
        (let r = \<lparr>phase = AwaitReady, timer = False, exclude = [], tryErrors = None\<rparr> in
         if ready c \<or> quitting c then tryClient c r
         else
           (case readyTimeout (config c) of
              None \<Rightarrow> (None, c\<lparr>refreshes := refreshes c @ [r]\<rparr>)
            | Some t \<Rightarrow>
                if t = 0 then (None, c\<lparr>refreshes := refreshes c @ [r]\<rparr>)
                else (None, c\<lparr>refreshes := refreshes c @ [r\<lparr>timer := True\<rparr>],
                               trace := trace c @ [SetTimeout (of_nat t)]\<rparr>))))"

definition queue_full :: "cluster \<Rightarrow> callback list \<Rightarrow> bool" where
  "queue_full c q =
     (case maxQueueLength (config c) of None \<Rightarrow> False | Some m \<Rightarrow> m \<noteq> 0 \<and> m = length q)"

definition getSlots :: "cluster \<Rightarrow> callback option \<Rightarrow> result" where
  "getSlots c cb =
     (let alreadyRunning = (slotQ c \<noteq> None);
          q = (case slotQ c of None \<Rightarrow> [] | Some q \<Rightarrow> q);
          c1 = c\<lparr>slotQ := Some q\<rparr>;
          err = new_Error ''max slot queue length reached''
      in case cb of
           None \<Rightarrow> getSlots_start alreadyRunning c1
         | Some f \<Rightarrow>
             if queue_full c q then
               (if queueShift (config c) \<noteq> Some False then
                  (case q of
                     [] \<Rightarrow> (Some TypeError, c1)
                   | eldest # rest \<Rightarrow>
                       getSlots_start alreadyRunning
                         (c1\<lparr>slotQ := Some (rest @ [f]),
                             trace := trace c @ [Call eldest (Some err) NoValue]\<rparr>))
                else (None, c1\<lparr>trace := trace c @ [Call f (Some err) NoValue]\<rparr>))
             else getSlots_start alreadyRunning (c1\<lparr>slotQ := Some (q @ [f])\<rparr>))"

text \<open>
  The \<^verbatim>\<open>readyTimeout\<close> timer of the \<open>i\<close>-th running refresh fires (lines 199-202): the
  listener is removed and the queue is failed.  A refresh whose \<^verbatim>\<open>tryClient\<close> has run has
  cleared its timer.
\<close>

definition remove_nth :: "nat \<Rightarrow> 'a list \<Rightarrow> 'a list" where
  "remove_nth i xs = take i xs @ drop (Suc i) xs"

definition readyTimeoutFired :: "cluster \<Rightarrow> nat \<Rightarrow> result" where
  "readyTimeoutFired c i =
     (if i < length (refreshes c) \<and> phase (refreshes c ! i) = AwaitReady \<and> timer (refreshes c ! i)
      then runCbs_error (c\<lparr>refreshes := remove_nth i (refreshes c)\<rparr>)
             (new_Error ''ready timeout reached'')
      else (None, c))"

text \<open>
  The reply to \<^verbatim>\<open>cluster slots\<close>, when it is no error (lines 160-186): the slot map is
  built anew from the ranges and the clients that no range names are quit.  A range of the
  reply is \<^verbatim>\<open>[start, end, [host, port], ...]\<close>, the format of the server release the
  repository's test setup builds.  The handler as a whole is \<open>slotsReply\<close> below.
\<close>

type_synonym slot_range = "nat \<times> nat \<times> (string \<times> string) list"

definition set_slot :: "'a option list \<Rightarrow> nat \<Rightarrow> 'a \<Rightarrow> 'a option list" where
  "set_slot xs j v =
     (if j < length xs then xs[j := Some v]
      else xs @ replicate (j - length xs) None @ [Some v])"

definition fill_range :: "'a option list \<Rightarrow> nat \<Rightarrow> nat \<Rightarrow> 'a \<Rightarrow> 'a option list" where
  "fill_range xs start end v = fold (\<lambda>j s. set_slot s j v) [start..<Suc end] xs"

fun getClients :: "cluster \<Rightarrow> (string \<times> string) list \<Rightarrow> string list \<Rightarrow> cluster \<times> nat list \<times> string list" where
  "getClients c [] seenClients = (c, [], seenClients)"
| "getClients c ((host, port) # ns) seenClients =
     (let (c1, cid) = getClient c (Some port) host;
          (c2, cids, seen) = getClients c1 ns (seenClients @ [host @ '':'' @ port])
      in (c2, cid # cids, seen))"

fun load_ranges :: "cluster \<Rightarrow> slot_range list \<Rightarrow> string list \<Rightarrow> cluster \<times> string list" where
  "load_ranges c [] seenClients = (c, seenClients)"
| "load_ranges c ((start, end, nodes) # rs) seenClients =
     (let (c1, cids, seen) = getClients c nodes seenClients
      in load_ranges (c1\<lparr>slots := fill_range (slots c1) start end cids\<rparr>) rs seen)"

fun prune :: "string list \<Rightarrow> string list \<Rightarrow> cluster \<Rightarrow> cluster" where
  "prune [] seenClients c = c"
| "prune (i # rest) seenClients c =
     prune rest seenClients
       (case connection c i of
          None \<Rightarrow> c
        | Some cid \<Rightarrow>
            if i \<in> set seenClients then c
            else c\<lparr>trace := trace c @ [ClientQuit cid False],
                   connections := assign i None (connections c)\<rparr>)"

definition rebuild :: "cluster \<Rightarrow> slot_range list \<Rightarrow> cluster" where
  "rebuild c ranges =
     (let (c1, seenClients) = load_ranges (c\<lparr>slots := []\<rparr>) ranges []
      in prune (map fst (connections c1)) seenClients c1)"

definition address_of :: "cluster \<Rightarrow> nat \<Rightarrow> string" where
  "address_of c cid = (case client_of c cid of Some cli \<Rightarrow> address cli | None \<Rightarrow> [])"

section \<open>Key router\<close>

text \<open>
  Modelled from the spec: the module \<^verbatim>\<open>./crc16-xmodem\<close> that \<^verbatim>\<open>redisClustr.js\<close> requires as
  \<^verbatim>\<open>crc\<close> is not among the sources.  The specification describes it as a 16-bit CRC with
  polynomial \<open>x^16 + x^12 + x^5 + 1\<close>, initial value 0, no reflection and no XOR-out, over
  the bytes of the routing key.  \<open>crc_shift\<close> is the step for one bit, \<open>crc_byte\<close> the eight
  steps for one byte.
\<close>

definition crc_shift :: "16 word \<Rightarrow> 16 word" where
  "crc_shift w = (if bit w 15 then push_bit 1 w XOR 0x1021 else push_bit 1 w)"

definition crc_byte :: "16 word \<Rightarrow> char \<Rightarrow> 16 word" where
  "crc_byte w ch =
     crc_shift (crc_shift (crc_shift (crc_shift (crc_shift (crc_shift (crc_shift (crc_shift
       (w XOR push_bit 8 (of_char ch)))))))))"

definition crc :: "string \<Rightarrow> nat" where
  "crc key = unat (foldl crc_byte 0 key)"

text \<open>\<^verbatim>\<open>String.prototype.indexOf\<close> for a single character: \<open>-1\<close> when it is absent.\<close>

fun indexOf :: "char \<Rightarrow> string \<Rightarrow> int" where
  "indexOf ch [] = - 1"
| "indexOf ch (x # xs) =
     (if x = ch then 0 else (let r = indexOf ch xs in if r = - 1 then - 1 else r + 1))"

text \<open>Lines 211-222 of \<^verbatim>\<open>selectClient\<close>: the hash tag.\<close>

definition routing_key :: "string \<Rightarrow> string" where
  "routing_key key =
     (let openKey = indexOf (CHR ''{'') key in
      if openKey \<noteq> - 1 then
        (let tmpKey = drop (nat (openKey + 1)) key;
             closeKey = indexOf (CHR ''}'') tmpKey
         in if closeKey > 0 then take (nat closeKey) tmpKey else key)
      else key)"

text \<open>Line 224: \<^verbatim>\<open>crc(key) % 16384\<close>.\<close>

definition slot_of :: "string \<Rightarrow> nat" where
  "slot_of key = crc (routing_key key) mod 16384"

definition set_readOnly :: "cluster \<Rightarrow> nat \<Rightarrow> bool \<Rightarrow> cluster" where
  "set_readOnly c cid b = c\<lparr>clients := (clients c)[cid := (clients c ! cid)\<lparr>readOnly := b\<rparr>]\<rparr>"

text \<open>Lines 226-255 of \<^verbatim>\<open>selectClient\<close>, for the slot computed on line 224.\<close>

definition select_index :: "cluster \<Rightarrow> conf \<Rightarrow> nat \<Rightarrow> nat \<times> cluster" where
  "select_index c cf n =
     (if conf_readOnly cf \<and> slaves (config c) \<noteq> None \<and> slaves (config c) \<noteq> Some []
         \<and> slaves (config c) \<noteq> Some ''never'' \<and> n > 1 then
        (if slaves (config c) = Some ''always'' then
           (let (i, c1) = random_index c (n - 1) in (i + 1, c1))
         else if slaves (config c) = Some ''share'' then random_index c n
         else (0, c))
      else (0, c))"

definition select_slot :: "cluster \<Rightarrow> nat \<Rightarrow> conf \<Rightarrow> nat option \<times> cluster" where
  "select_slot c slot cf =
     (case (if slot < length (slots c) then slots c ! slot else None) of
        None \<Rightarrow> getRandomConnection c None
      | Some cls \<Rightarrow>
          if cls = [] then getRandomConnection c None
          else
            (let (index, c1) = select_index c cf (length cls);
                 cid = cls ! index
             in case client_of c1 cid of
                  None \<Rightarrow> (Some cid, c1)
                | Some cli \<Rightarrow>
                    if index = 0 \<and> readOnly cli then
                      (Some cid, set_readOnly (emit [SendCommand cid ''readwrite'' []] c1) cid False)
                    else if index > 0 \<and> \<not> readOnly cli then
                      (Some cid, set_readOnly (emit [SendCommand cid ''readonly'' []] c1) cid True)
                    else (Some cid, c1)))"

text \<open>
  \<^verbatim>\<open>selectClient(key, conf)\<close> (lines 205-256).  A key that is not text after lines 208-209
  has no \<^verbatim>\<open>indexOf\<close> (or no \<^verbatim>\<open>substring\<close>): a TypeError.  For a nested array the outcome
  depends on the absent \<^verbatim>\<open>crc\<close> module and is left out.
\<close>

definition selectClient :: "cluster \<Rightarrow> jsval \<Rightarrow> conf \<Rightarrow> exn + (nat option \<times> cluster)" where
  "selectClient c key cf =
     (let key1 = (case key of Arr xs \<Rightarrow> (case xs of [] \<Rightarrow> Undefined | x # _ \<Rightarrow> x) | _ \<Rightarrow> key);
          key2 = (case key1 of Buf b \<Rightarrow> Str b | _ \<Rightarrow> key1)
      in case key2 of
           Str s \<Rightarrow> Inr (select_slot c (slot_of s) cf)
         | Arr _ \<Rightarrow> Inl NotModelled
         | _ \<Rightarrow> Inl TypeError)"

section \<open>Command executor\<close>

text \<open>
  The closure that \<^verbatim>\<open>commandCallback\<close> (lines 293-333) pushes onto the arguments: it
  captures the first client, the command, its arguments, the caller's callback and the
  counter \<^verbatim>\<open>retries\<close>.  An \<open>Invoke\<close> event lists the arguments without this closure, which
  every invocation of the command carries as its last argument.
\<close>

record command =
  k_cli :: nat
  k_cmd :: string
  k_args :: "jsval list"
  k_cb :: callback
  retries :: int

definition commandCallback :: "nat \<Rightarrow> string \<Rightarrow> jsval list \<Rightarrow> callback \<Rightarrow> command" where
  "commandCallback cl cmd args cb =
     \<lparr>k_cli = cl, k_cmd = cmd, k_args = args, k_cb = cb, retries = 16\<rparr>"

text \<open>\<^verbatim>\<open>String.prototype.split\<close> with a one-character separator, and array indexing.\<close>

fun split_on :: "char \<Rightarrow> string \<Rightarrow> string list" where
  "split_on ch [] = [[]]"
| "split_on ch (x # xs) =
     (if x = ch then [] # split_on ch xs
      else (case split_on ch xs of [] \<Rightarrow> [[x]] | w # ws \<Rightarrow> (x # w) # ws))"

definition nth_opt :: "'a list \<Rightarrow> nat \<Rightarrow> 'a option" where
  "nth_opt xs i = (if i < length xs then Some (xs ! i) else None)"

text \<open>Line 326: \<^verbatim>\<open>Math.pow(2, 16 - Math.max(retries, 9)) * 10\<close>, in milliseconds.\<close>

definition backoff :: "int \<Rightarrow> rat" where
  "backoff n = (2 powi (16 - max n 9)) * 10"

datatype outcome = Reissued | Sleeping rat | Surfaced | Threw exn

text \<open>
  The closure's body (lines 301-332), called by the node client with the reply
  \<^verbatim>\<open>(err, res)\<close>.  \<^verbatim>\<open>retries--\<close> is evaluated only when \<^verbatim>\<open>err\<close> and \<^verbatim>\<open>err.message\<close> are
  truthy; it yields the value before the decrement.
\<close>

definition commandReply :: "cluster \<Rightarrow> command \<Rightarrow> error option \<Rightarrow> jsval \<Rightarrow> outcome \<times> cluster \<times> command" where
  "commandReply c k err res =
     (let surface = (\<lambda>k'. (Surfaced, emit [Call (k_cb k') err (Value res)] c, k')) in
      case err of
        None \<Rightarrow> surface k
      | Some e \<Rightarrow>
          if message e = [] then surface k
          else
            (let k1 = k\<lparr>retries := retries k - 1\<rparr> in
             if retries k = 0 then surface k1
             else
               (let msg = message e;
                    ask = (take 4 msg = ''ASK '');
                    moved = (\<not> ask \<and> take 6 msg = ''MOVED '')
                in if moved \<or> ask then
                     (case (if moved then getSlots c None else (None, c)) of
                        (Some x, c1) \<Rightarrow> (Threw x, c1, k1)
                      | (None, c1) \<Rightarrow>
                          (case nth_opt (split_on (CHR '' '') msg) 2 of
                             None \<Rightarrow> (Threw TypeError, c1, k1)
                           | Some addr \<Rightarrow>
                               (let saddr = split_on (CHR '':'') addr;
                                    (c2, cid) = getClient c1 (nth_opt saddr 1) (hd saddr);
                                    c3 = (if ask then emit [SendCommand cid ''asking'' []] c2 else c2)
                                in (Reissued, emit [Invoke cid (k_cmd k) (k_args k)] c3, k1))))
                   else if take 8 msg = ''TRYAGAIN'' \<or> code e = Some ''CLUSTERDOWN'' then
                     (Sleeping (backoff (retries k1)), emit [SetTimeout (backoff (retries k1))] c, k1)
                   else surface k1)))"

text \<open>The timer of line 324 fires: the command goes to the first client again.\<close>

definition retryFired :: "cluster \<Rightarrow> command \<Rightarrow> cluster" where
  "retryFired c k = emit [Invoke (k_cli k) (k_cmd k) (k_args k)] c"

text \<open>\<^verbatim>\<open>doCommand(cmd, conf, args)\<close> (lines 258-291).\<close>

fun is_Func :: "jsval \<Rightarrow> bool" where
  "is_Func (Func f) = True"
| "is_Func v = False"

definition argsCb :: "jsval list \<Rightarrow> bool" where
  "argsCb args = (args \<noteq> [] \<and> is_Func (last args))"

definition callback_of :: "jsval list \<Rightarrow> callback" where
  "callback_of args =
     (if args = [] then DefaultCb
      else (case last args of Func f \<Rightarrow> Fn f | _ \<Rightarrow> DefaultCb))"

definition first_arg :: "jsval list \<Rightarrow> jsval" where
  "first_arg args = (case args of [] \<Rightarrow> Undefined | key # _ \<Rightarrow> key)"

definition doCommand :: "cluster \<Rightarrow> string \<Rightarrow> conf \<Rightarrow> jsval list \<Rightarrow> exn option \<times> cluster \<times> command option" where
  "doCommand c cmd cf args =
     (let key = first_arg args;
          cb = callback_of args
      in if \<not> truthy key then
           (None, emit [Call cb (Some (new_Error (''no key for command: '' @ cmd))) NoValue] c, None)
         else if slots c = [] then
           (case getSlots c (Some (SlotsCb cmd cf args)) of (x, c1) \<Rightarrow> (x, c1, None))
         else
           (let args1 = (if argsCb args then butlast args else args) in
            case selectClient c key cf of
              Inl x \<Rightarrow> (Some x, c, None)
            | Inr (None, c1) \<Rightarrow>
                (None, emit [Call cb (Some (new_Error (''couldn'' @ [CHR 0x27] @ ''t get client''))) NoValue] c1,
                 None)
            | Inr (Some r, c1) \<Rightarrow>
                (None, emit [Invoke r cmd args1] c1, Some (commandCallback r cmd args1 cb))))"

text \<open>
  The bodies of the two closures of \<^verbatim>\<open>doCommand\<close> (lines 264-266 and 276-279).  Whether
  \<^verbatim>\<open>emit('error', err)\<close> finds a listener is the caller's business.
\<close>

definition defaultCb :: "cluster \<Rightarrow> error option \<Rightarrow> cluster" where
  "defaultCb c err = (case err of None \<Rightarrow> c | Some e \<Rightarrow> emit [Emit ''error'' (Some e)] c)"

definition slotsCb :: "cluster \<Rightarrow> string \<Rightarrow> conf \<Rightarrow> jsval list \<Rightarrow> error option \<Rightarrow> exn option \<times> cluster \<times> command option" where
  "slotsCb c cmd cf args err =
     (case err of
        Some e \<Rightarrow> (None, emit [Call (callback_of args) (Some e) NoValue] c, None)
      | None \<Rightarrow> doCommand c cmd cf args)"

section \<open>Draining the queue\<close>

text \<open>
  \<^verbatim>\<open>cb.apply(cb, arguments)\<close> on line 133, for a callback \<open>cb\<close> just shifted off the queue.
  The closure \<open>SlotsCb\<close>, called without an error, runs \<^verbatim>\<open>doCommand\<close> here, while the queue
  is still in place; an exception of \<^verbatim>\<open>doCommand\<close> leaves the loop.  Every other call is the
  \<open>Call\<close> event alone: of a function of the caller, or of a closure that hands an error on.
\<close>

definition apply_cb :: "cluster \<Rightarrow> callback \<Rightarrow> error option \<Rightarrow> payload \<Rightarrow> result" where
  "apply_cb c cb err res =
     (let c1 = emit [Call cb err res] c in
      case cb of
        SlotsCb cmd cf args \<Rightarrow>
          (case err of
             None \<Rightarrow> (case slotsCb c1 cmd cf args None of (x, c2, k) \<Rightarrow> (x, c2))
           | Some e \<Rightarrow> (None, c1))
      | _ \<Rightarrow> (None, c1))"

text \<open>
  \<^verbatim>\<open>runCbs\<close> (lines 130-136).  The loop shifts a callback off \<^verbatim>\<open>self._slotQ\<close> and calls it,
  until the queue is found empty; only then is \<^verbatim>\<open>self._slotQ\<close> set to \<^verbatim>\<open>false\<close>.  A
  callback that calls \<^verbatim>\<open>getSlots\<close> meanwhile finds the queue in place and joins it, and the
  same loop serves it.  The loop need not end: the result is \<open>None\<close> when it does not.
\<close>

partial_function (option) runCbs :: "cluster \<Rightarrow> error option \<Rightarrow> payload \<Rightarrow> result option" where
  "runCbs c err res =
     (case slotQ c of
        None \<Rightarrow> Some (Some TypeError, c)
      | Some q \<Rightarrow>
          (case q of
             [] \<Rightarrow> Some (None, c\<lparr>slotQ := None\<rparr>)
           | cb # rest \<Rightarrow>
               (case apply_cb (c\<lparr>slotQ := Some rest\<rparr>) cb err res of
                  (Some x, c1) \<Rightarrow> Some (Some x, c1)
                | (None, c1) \<Rightarrow> runCbs c1 err res)))"

text \<open>
  The handler of the reply to \<^verbatim>\<open>cluster slots\<close> (lines 151-189), for the \<open>i\<close>-th running
  refresh.  It does not return when the loop of \<^verbatim>\<open>runCbs\<close> does not end.
\<close>

definition slotsReply :: "cluster \<Rightarrow> nat \<Rightarrow> error option \<Rightarrow> slot_range list \<Rightarrow> result option" where
  "slotsReply c i err ranges =
     (if i < length (refreshes c) then
        (let r = refreshes c ! i; c0 = c\<lparr>refreshes := remove_nth i (refreshes c)\<rparr> in
         case phase r of
           AwaitReady \<Rightarrow> Some (None, c)
         | AwaitReply cid \<Rightarrow>
             (case err of
                Some e \<Rightarrow>
                  Some (tryClient c0
                    (r\<lparr>exclude := exclude r @ [address_of c0 cid],
                       tryErrors := Some ((case tryErrors r of None \<Rightarrow> [] | Some es \<Rightarrow> es) @ [e])\<rparr>))
              | None \<Rightarrow>
                  (let c2 = rebuild c0 ranges in runCbs c2 None (SlotMap (slots c2)))))
      else Some (None, c))"

section \<open>Lifecycle and events\<close>

text \<open>
  \<^verbatim>\<open>quit(cb)\<close> (lines 375-390).  The loop of line 389 calls \<^verbatim>\<open>.quit(quitCb)\<close> on the value
  bound to every key; on \<^verbatim>\<open>null\<close> that is a TypeError, which ends the loop.  \<open>quitter\<close>
  holds what \<^verbatim>\<open>quitCb\<close> captures.
\<close>

record quitter =
  todo :: int
  errs :: "error list option"
  quit_cb :: "callback option"

fun quit_loop :: "(string \<times> nat option) list \<Rightarrow> cluster \<Rightarrow> result" where
  "quit_loop [] c = (None, c)"
| "quit_loop ((i, None) # rest) c = (Some TypeError, c)"
| "quit_loop ((i, Some cid) # rest) c = quit_loop rest (emit [ClientQuit cid True] c)"

definition quit :: "cluster \<Rightarrow> callback option \<Rightarrow> result \<times> quitter" where
  "quit c cb =
     (let q = \<lparr>todo = int (length (connections c)), errs = None, quit_cb = cb\<rparr>;
          c1 = emit [ClearInterval] (c\<lparr>quitting := True\<rparr>)
      in (quit_loop (connections c1) c1, q))"

text \<open>\<^verbatim>\<open>quitCb(err)\<close> (lines 383-387), called by a node client when its quit is done.\<close>

definition quitCb :: "quitter \<Rightarrow> error option \<Rightarrow> event list \<times> quitter" where
  "quitCb q err =
     (let es = (case err of
                  None \<Rightarrow> errs q
                | Some e \<Rightarrow> Some ((case errs q of None \<Rightarrow> [] | Some xs \<Rightarrow> xs) @ [e]));
          q1 = q\<lparr>errs := es, todo := todo q - 1\<rparr>
      in ((case quit_cb q of
             Some cb \<Rightarrow> if todo q1 = 0 then [CallQuit cb es] else []
           | None \<Rightarrow> []), q1))"

text \<open>
  The listeners that \<^verbatim>\<open>getClient\<close> attaches to a node client (lines 52-92).  The node
  client changes its own \<^verbatim>\<open>ready\<close>, \<^verbatim>\<open>connected\<close> and \<^verbatim>\<open>emitted_end\<close> properties; the
  functions below take the new values from the event.
\<close>

definition update_client :: "cluster \<Rightarrow> nat \<Rightarrow> (client \<Rightarrow> client) \<Rightarrow> cluster" where
  "update_client c cid f =
     (if cid < length (clients c) then c\<lparr>clients := (clients c)[cid := f (clients c ! cid)]\<rparr> else c)"

text \<open>
  \<^verbatim>\<open>self.emit('ready')\<close>: each listener registered with \<^verbatim>\<open>once\<close> is removed and called,
  in the order of registration.
\<close>

fun run_listeners :: "refresh list \<Rightarrow> cluster \<Rightarrow> result" where
  "run_listeners [] c = (None, c)"
| "run_listeners (r # rs) c =
     (case tryClient (c\<lparr>refreshes := remove1 r (refreshes c)\<rparr>) r of
        (None, c1) \<Rightarrow> run_listeners rs c1
      | (Some x, c1) \<Rightarrow> (Some x, c1))"

definition onReady :: "cluster \<Rightarrow> nat \<Rightarrow> result" where
  "onReady c cid =
     (let c1 = update_client c cid (\<lambda>cli. cli\<lparr>is_ready := True, connected := True\<rparr>) in
      if \<not> ready c1 then
        run_listeners (filter (\<lambda>r. phase r = AwaitReady) (refreshes c1))
          (emit [Emit ''ready'' None] (c1\<lparr>ready := True\<rparr>))
      else (None, c1))"

text \<open>
  The test \<^verbatim>\<open>/Redis connection to .* failed.*/\<close> on the message: the two fixed texts occur
  in this order with no line break between them.
\<close>

fun starts_with :: "string \<Rightarrow> string \<Rightarrow> bool" where
  "starts_with [] s = True"
| "starts_with (p # ps) [] = False"
| "starts_with (p # ps) (x # xs) = (p = x \<and> starts_with ps xs)"

fun contains :: "string \<Rightarrow> string \<Rightarrow> bool" where
  "contains p [] = (p = [])"
| "contains p (x # xs) = (starts_with p (x # xs) \<or> contains p xs)"

fun connection_failed :: "string \<Rightarrow> bool" where
  "connection_failed [] = False"
| "connection_failed (x # xs) =
     ((starts_with ''Redis connection to '' (x # xs) \<and>
       contains '' failed''
         (takeWhile (\<lambda>ch. ch \<noteq> CHR 0x0A \<and> ch \<noteq> CHR 0x0D) (drop 20 (x # xs))))
      \<or> connection_failed xs)"

definition onError :: "cluster \<Rightarrow> nat \<Rightarrow> error \<Rightarrow> result" where
  "onError c cid err =
     (if code err = Some ''CONNECTION_BROKEN'' \<or> code err = Some ''UNCERTAIN_STATE''
         \<or> connection_failed (message err) then
        (let c1 = (if code err = Some ''CONNECTION_BROKEN''
                   then c\<lparr>connections := assign (address_of c cid) None (connections c)\<rparr> else c)
         in getSlots (emit [Emit ''connectionError'' (Some err)] c1) None)
      else (None, emit [Emit ''error'' (Some err)] c))"

definition live_ready :: "cluster \<Rightarrow> bool" where
  "live_ready c =
     list_ex (\<lambda>n. case connection c n of Some cid \<Rightarrow> client_ready c cid | None \<Rightarrow> False)
       (map fst (connections c))"

definition onEnd :: "cluster \<Rightarrow> nat \<Rightarrow> cluster" where
  "onEnd c cid =
     (let c1 = update_client c cid (\<lambda>cli. cli\<lparr>is_ready := False, connected := False\<rparr>);
          wasReady = ready c1;
          c2 = c1\<lparr>ready := live_ready c1\<rparr>
      in if \<not> ready c2 \<and> wasReady then emit [Emit ''unready'' None] c2 else c2)"

definition all_ended :: "cluster \<Rightarrow> bool" where
  "all_ended c =
     list_all (\<lambda>n. case connection c n of
                      None \<Rightarrow> True
                    | Some cid \<Rightarrow>
                        (case client_of c cid of
                           None \<Rightarrow> True
                         | Some cc \<Rightarrow> \<not> connected cc \<and> emitted_end cc))
       (map fst (connections c))"

text \<open>The function deferred with \<^verbatim>\<open>setImmediate\<close> on lines 84-91.\<close>

definition afterEnd :: "cluster \<Rightarrow> nat \<Rightarrow> cluster" where
  "afterEnd c cid =
     (let c1 = update_client c cid (\<lambda>cli. cli\<lparr>emitted_end := True\<rparr>);
          wasEnded = ended c1;
          c2 = c1\<lparr>ended := all_ended c1\<rparr>
      in if ended c2 \<and> \<not> wasEnded then emit [Emit ''end'' None] c2 else c2)"

text \<open>The constructor (lines 9-38).\<close>

fun seed :: "(string \<times> string) list \<Rightarrow> cluster \<Rightarrow> cluster" where
  "seed [] c = c"
| "seed ((host, port) # rest) c = seed rest (fst (getClient c (Some port) host))"

definition RedisClustr :: "config \<Rightarrow> nat list \<Rightarrow> result" where
  "RedisClustr cfg rs =
     (let c0 = \<lparr>config = cfg, slots = [], connections = [], ready = False, quitting = False,
                 ended = False, slotQ = None, clients = [], refreshes = [], rands = rs,
                 trace = []\<rparr>
      in case getSlots (seed (servers cfg) c0) None of
           (Some x, c1) \<Rightarrow> (Some x, c1)
         | (None, c1) \<Rightarrow>
             (case slotInterval cfg of
                None \<Rightarrow> (None, c1)
              | Some t \<Rightarrow> if t = 0 then (None, c1) else (None, emit [SetInterval t] c1)))"

section \<open>Runs\<close>

text \<open>
  One command from its dispatch on: the node client answers each invocation with one
  reply \<^verbatim>\<open>(err, res)\<close>, the closure of \<^verbatim>\<open>commandCallback\<close> handles it, and a backoff timer
  that was armed fires before the next reply.  The result is \<open>None\<close> while the command
  still waits for a reply.
\<close>

fun replies_loop :: "cluster \<Rightarrow> command \<Rightarrow> (error option \<times> jsval) list \<Rightarrow> outcome option \<times> cluster \<times> command" where
  "replies_loop c k [] = (None, c, k)"
| "replies_loop c k ((err, res) # rs) =
     (case commandReply c k err res of
        (Reissued, c1, k1) \<Rightarrow> replies_loop c1 k1 rs
      | (Sleeping d, c1, k1) \<Rightarrow> replies_loop (retryFired c1 k1) k1 rs
      | (Surfaced, c1, k1) \<Rightarrow> (Some Surfaced, c1, k1)
      | (Threw x, c1, k1) \<Rightarrow> (Some (Threw x), c1, k1))"

text \<open>The number of times a command was handed to a node client.\<close>

fun is_Invoke :: "event \<Rightarrow> bool" where
  "is_Invoke (Invoke cid cmd args) = True"
| "is_Invoke e = False"

definition invocations :: "event list \<Rightarrow> nat" where
  "invocations es = length (filter is_Invoke es)"

text \<open>The slot-enumeration commands sent, and the callbacks called.\<close>

fun is_enumeration :: "event \<Rightarrow> bool" where
  "is_enumeration (SendCommand cid cmd args) = (cmd = ''cluster'' \<and> args = [''slots''])"
| "is_enumeration e = False"

definition enumerations :: "event list \<Rightarrow> nat" where
  "enumerations es = length (filter is_enumeration es)"

fun is_Call :: "event \<Rightarrow> bool" where
  "is_Call (Call cb err res) = True"
| "is_Call e = False"

definition calls :: "event list \<Rightarrow> event list" where
  "calls es = filter is_Call es"

text \<open>
  \<^verbatim>\<open>quitCb\<close> called once for each of the given results, and the events this produces.
\<close>

fun quitCbs :: "quitter \<Rightarrow> error option list \<Rightarrow> event list \<times> quitter" where
  "quitCbs q [] = ([], q)"
| "quitCbs q (err # rest) =
     (let (es, q1) = quitCb q err; (es2, q2) = quitCbs q1 rest in (es @ es2, q2))"

text \<open>
  The states of a cluster object: the constructor's, and those any function or handler
  of the source leads to, whoever calls it and with whatever arguments, also when it ends
  by throwing.  A handler that does not return leads to no state.  The closure of a command
  and the index of a running refresh are arbitrary here, so the states of the program are
  among these.
\<close>

inductive reachable :: "cluster \<Rightarrow> bool" where
  created: "reachable (snd (RedisClustr cfg rs))"
| called_getSlots: "reachable c \<Longrightarrow> reachable (snd (getSlots c cb))"
| timer_fired: "reachable c \<Longrightarrow> reachable (snd (readyTimeoutFired c i))"
| slots_reply: "reachable c \<Longrightarrow> slotsReply c i err ranges = Some (x, c') \<Longrightarrow> reachable c'"
| client_ready: "reachable c \<Longrightarrow> reachable (snd (onReady c cid))"
| client_error: "reachable c \<Longrightarrow> reachable (snd (onError c cid e))"
| client_end: "reachable c \<Longrightarrow> reachable (onEnd c cid)"
| client_ended: "reachable c \<Longrightarrow> reachable (afterEnd c cid)"
| command: "reachable c \<Longrightarrow> reachable (fst (snd (doCommand c cmd cf args)))"
| command_reply: "reachable c \<Longrightarrow> reachable (fst (snd (commandReply c k err res)))"
| retry_fired: "reachable c \<Longrightarrow> reachable (retryFired c k)"
| slots_callback: "reachable c \<Longrightarrow> reachable (fst (snd (slotsCb c cmd cf args err)))"
| default_callback: "reachable c \<Longrightarrow> reachable (defaultCb c err)"
| quit_called: "reachable c \<Longrightarrow> reachable (snd (fst (quit c cb)))"

text \<open>
  The enumeration commands whose reply is outstanding: \<open>tryClient\<close> records one where it
  sends the command, \<open>slotsReply\<close> removes it when the reply arrives.
\<close>

definition in_flight :: "cluster \<Rightarrow> nat" where
  "in_flight c = length (filter (\<lambda>r. phase r \<noteq> AwaitReady) (refreshes c))"

text \<open>The endpoints that the ranges of a \<^verbatim>\<open>cluster slots\<close> reply name.\<close>

fun referenced :: "slot_range list \<Rightarrow> string list" where
  "referenced [] = []"
| "referenced ((start, end, nodes) # rs) = map (\<lambda>(host, port). host @ '':'' @ port) nodes @ referenced rs"

section \<open>Notions used by the properties\<close>

text \<open>The calls of the callback given to \<^verbatim>\<open>quit\<close>.\<close>

fun is_CallQuit :: "event \<Rightarrow> bool" where
  "is_CallQuit (CallQuit cb es) = True"
| "is_CallQuit e = False"

text \<open>The clients that the loop of \<^verbatim>\<open>quit\<close> reaches: those bound before the first \<^verbatim>\<open>null\<close>.\<close>

fun before_null :: "(string \<times> nat option) list \<Rightarrow> nat list" where
  "before_null [] = []"
| "before_null ((i, None) # rest) = []"
| "before_null ((i, Some cid) # rest) = cid # before_null rest"

text \<open>
  No more than one \<^verbatim>\<open>getSlots\<close> call is running, and the queue exists while one is.  (The
  queue may outlive the call: when a callback throws inside the loop of \<^verbatim>\<open>runCbs\<close>, line 135
  is not reached.)
\<close>

definition coalesced :: "cluster \<Rightarrow> bool" where
  "coalesced c = (length (refreshes c) \<le> 1 \<and> (slotQ c = None \<longrightarrow> refreshes c = []))"

text \<open>Two states with the same queue and the same running refreshes.\<close>

definition same_refresh :: "cluster \<Rightarrow> cluster \<Rightarrow> bool" where
  "same_refresh c c' = (refreshes c' = refreshes c \<and> slotQ c' = slotQ c)"

text \<open>
  What a step does to the callbacks \<open>q\<close> queued in \<open>c\<close>: it leaves them queued and calls
  none, or it calls every one of them with one and the same result and drops the queue.
\<close>

definition settles :: "callback list \<Rightarrow> cluster \<Rightarrow> cluster \<Rightarrow> bool" where
  "settles q c c' =
     ((slotQ c' = Some q \<and> calls (trace c') = calls (trace c)) \<or>
      (slotQ c' = None \<and>
       (\<exists>err res. calls (trace c') = calls (trace c) @ map (\<lambda>cb. Call cb err res) q)))"

text \<open>
  A closure of \<^verbatim>\<open>doCommand\<close> for a command with a key: called without an error while the
  slot map is empty, it calls \<^verbatim>\<open>getSlots\<close> again.  \<open>bounded\<close>: the queue is no longer than a
  configured \<^verbatim>\<open>maxQueueLength\<close> lets it grow.  \<open>looping\<close>: the slot map is empty and such a
  closure is queued.
\<close>

fun is_SlotsCb :: "callback \<Rightarrow> bool" where
  "is_SlotsCb (SlotsCb cmd cf args) = True"
| "is_SlotsCb cb = False"

fun waits_for_slots :: "callback \<Rightarrow> bool" where
  "waits_for_slots (SlotsCb cmd cf args) = truthy (first_arg args)"
| "waits_for_slots cb = False"

definition bounded :: "cluster \<Rightarrow> callback list \<Rightarrow> bool" where
  "bounded c q = (case maxQueueLength (config c) of None \<Rightarrow> True | Some m \<Rightarrow> m = 0 \<or> length q \<le> m)"

definition looping :: "cluster \<Rightarrow> bool" where
  "looping c =
     (slots c = [] \<and>
      (case slotQ c of None \<Rightarrow> False | Some q \<Rightarrow> bounded c q \<and> list_ex waits_for_slots q))"

text \<open>A step that leaves the pool as it is and only adds to the trace.\<close>

definition keeps_pool :: "cluster \<Rightarrow> cluster \<Rightarrow> bool" where
  "keeps_pool c c' = (connections c' = connections c \<and> (\<exists>es. trace c' = trace c @ es))"

text \<open>A step that neither touches the queue nor calls a callback.\<close>

definition quiet :: "cluster \<Rightarrow> cluster \<Rightarrow> bool" where
  "quiet c c' = (slotQ c' = slotQ c \<and> calls (trace c') = calls (trace c))"

section \<open>Example states\<close>

text \<open>
  A cluster of two seed nodes \<open>a:1\<close> and \<open>b:2\<close>: as constructed (\<open>cluster0\<close>), after the first
  node became ready, which sends the enumeration command to it (\<open>cluster_ready\<close>), and
  after that node answered with slots 0 and 1 on itself (\<open>cluster1\<close>, where the second seed
  node, absent from the reply, is a tombstone) or on both nodes (\<open>cluster2\<close>), or with an
  error (\<open>failed1\<close>).  The key \<open>la2\<close> has slot 0.  \<open>returned c r\<close> is the state in which a
  handler called in \<open>c\<close> returns (\<open>c\<close> itself if it does not return).
\<close>

definition returned :: "cluster \<Rightarrow> result option \<Rightarrow> cluster" where
  "returned c r = (case r of None \<Rightarrow> c | Some (x, c') \<Rightarrow> c')"

definition cfg0 :: config where
  "cfg0 = \<lparr>servers = [(''a'', ''1''), (''b'', ''2'')], slotInterval = None, readyTimeout = None,
            maxQueueLength = None, queueShift = None, slaves = None\<rparr>"

definition cluster0 :: cluster where
  "cluster0 = snd (RedisClustr cfg0 [])"

definition cluster_ready :: cluster where
  "cluster_ready = snd (onReady cluster0 0)"

definition cluster1 :: cluster where
  "cluster1 = returned cluster_ready (slotsReply cluster_ready 0 None [(0, 1, [(''a'', ''1'')])])"

definition cluster2 :: cluster where
  "cluster2 =
     returned cluster_ready (slotsReply cluster_ready 0 None [(0, 1, [(''a'', ''1''), (''b'', ''2'')])])"

definition failed1 :: cluster where
  "failed1 = returned cluster_ready (slotsReply cluster_ready 0 (Some (new_Error ''ERR'')) [])"

text \<open>The two node clients of these states, as the store holds them.\<close>

definition client_a :: "bool \<Rightarrow> client" where
  "client_a up = \<lparr>address = ''a:1'', is_ready = up, readOnly = False, connected = up, emitted_end = False\<rparr>"

definition client_b :: client where
  "client_b = \<lparr>address = ''b:2'', is_ready = False, readOnly = False, connected = False, emitted_end = False\<rparr>"

text \<open>
  The command \<^verbatim>\<open>get('la2', f1)\<close>: its closure as \<^verbatim>\<open>doCommand\<close> creates it on \<open>cluster1\<close>, the
  state after its dispatch, and two error replies.
\<close>

definition command0 :: command where
  "command0 = commandCallback 0 ''get'' [Str ''la2''] (Fn 1)"

definition dispatched1 :: cluster where
  "dispatched1 = cluster1\<lparr>trace := trace cluster1 @ [Invoke 0 ''get'' [Str ''la2'']]\<rparr>"

definition tryagain :: error where
  "tryagain = Error ''TRYAGAIN Multiple keys request during rehashing of slot'' (Some ''TRYAGAIN'') None"

definition clusterdown :: error where
  "clusterdown = Error ''CLUSTERDOWN The cluster is down'' (Some ''CLUSTERDOWN'') None"



text \<open>
  The fresh cluster after sixteen \<^verbatim>\<open>getSlots(f)\<close> calls with no \<^verbatim>\<open>maxQueueLength\<close>
  (\<open>waiting16\<close>), and after two such calls with \<^verbatim>\<open>maxQueueLength\<close> 2, \<^verbatim>\<open>queueShift\<close> unset or
  \<^verbatim>\<open>false\<close> (\<open>waiting2\<close>).
\<close>

definition queue16 :: "callback list" where
  "queue16 = map Fn [1, 2, 3, 4, 5, 6, 7, 8, 9, 10, 11, 12, 13, 14, 15, 16]"

definition waiting16 :: cluster where
  "waiting16 = fold (\<lambda>f c. snd (getSlots c (Some f))) queue16 cluster0"

definition cfg_shift :: config where
  "cfg_shift = cfg0\<lparr>maxQueueLength := Some 2\<rparr>"

definition cfg_reject :: config where
  "cfg_reject = cfg0\<lparr>maxQueueLength := Some 2, queueShift := Some False\<rparr>"

definition waiting2 :: "config \<Rightarrow> cluster" where
  "waiting2 cfg = fold (\<lambda>f c. snd (getSlots c (Some f))) [Fn 1, Fn 2] (snd (RedisClustr cfg []))"

text \<open>\<open>cluster2\<close> and \<open>failed1\<close> after \<^verbatim>\<open>quit(f9)\<close>.\<close>

definition quit2 :: cluster where
  "quit2 = snd (fst (quit cluster2 (Some (Fn 9))))"

definition quit_failed :: cluster where
  "quit_failed = snd (fst (quit failed1 (Some (Fn 9))))"

text \<open>
  The example cluster with a refresh in flight and the command \<^verbatim>\<open>get('la2', f1)\<close> called
  meanwhile: the slot map is still empty, so the command waits in the queue.
\<close>

definition waiting_cmd :: cluster where
  "waiting_cmd = fst (snd (doCommand cluster_ready ''get'' \<lparr>conf_readOnly = False\<rparr> [Str ''la2'', Func 1]))"

text \<open>
  The same with the command \<^verbatim>\<open>get(5, f1)\<close>, whose key is a number, followed by
  \<^verbatim>\<open>getSlots(f2)\<close>.
\<close>

definition waiting_num :: cluster where
  "waiting_num =
     snd (getSlots (fst (snd (doCommand cluster_ready ''get'' \<lparr>conf_readOnly = False\<rparr> [Num 5, Func 1])))
            (Some (Fn 2)))"

text \<open>The example cluster with a refresh in flight and one, then two, callbacks queued.\<close>

definition running1 :: cluster where
  "running1 = snd (getSlots cluster_ready (Some (Fn 1)))"

definition running2 :: cluster where
  "running2 = snd (getSlots running1 (Some (Fn 2)))"

section \<open>Properties\<close>

subsection \<open>The example states, evaluated\<close>

lemma runCbs_None: "slotQ c = None \<Longrightarrow> runCbs c err res = Some (Some TypeError, c)"
  by (subst runCbs.simps) simp

lemma runCbs_Nil: "slotQ c = Some [] \<Longrightarrow> runCbs c err res = Some (None, c\<lparr>slotQ := None\<rparr>)"
  by (subst runCbs.simps) simp

lemma runCbs_Cons:
  "slotQ c = Some (cb # rest) \<Longrightarrow>
   runCbs c err res =
     (case apply_cb (c\<lparr>slotQ := Some rest\<rparr>) cb err res of
        (Some x, c1) \<Rightarrow> Some (Some x, c1)
      | (None, c1) \<Rightarrow> runCbs c1 err res)"
  by (subst runCbs.simps) simp

lemmas eval_defs =
  RedisClustr_def getSlots_def getSlots_start_def queue_full_def tryClient_def runCbs_error_def
  getRandomConnection_def available_def random_index_def connection_def client_of_def
  client_ready_def getClient_def endpoint_def emit_def onReady_def update_client_def
  slotsReply_def rebuild_def remove_nth_def address_of_def set_slot_def fill_range_def Let_def
  runCbs_Nil returned_def

lemma cluster0_eq:
  "cluster0 =
     \<lparr>config = cfg0, slots = [], connections = [(''a:1'', Some 0), (''b:2'', Some 1)],
      ready = False, quitting = False, ended = False, slotQ = Some [],
      clients = [client_a False, client_b],
      refreshes = [\<lparr>phase = AwaitReady, timer = False, exclude = [], tryErrors = None\<rparr>],
      rands = [],
      trace = [CreateClient (Some ''1'') ''a'', CreateClient (Some ''2'') ''b'']\<rparr>"
  by (simp add: cluster0_def cfg0_def eval_defs client_a_def client_b_def)

lemma cluster_ready_eq:
  "cluster_ready =
     \<lparr>config = cfg0, slots = [], connections = [(''a:1'', Some 0), (''b:2'', Some 1)],
      ready = True, quitting = False, ended = False, slotQ = Some [],
      clients = [client_a True, client_b],
      refreshes = [\<lparr>phase = AwaitReply 0, timer = False, exclude = [], tryErrors = None\<rparr>],
      rands = [],
      trace = [CreateClient (Some ''1'') ''a'', CreateClient (Some ''2'') ''b'',
               Emit ''ready'' None, SendCommand 0 ''cluster'' [''slots'']]\<rparr>"
  by (simp add: cluster_ready_def cluster0_eq eval_defs client_a_def client_b_def)

lemma cluster1_eq:
  "cluster1 =
     \<lparr>config = cfg0, slots = [Some [0], Some [0]], connections = [(''a:1'', Some 0), (''b:2'', None)],
      ready = True, quitting = False, ended = False, slotQ = None,
      clients = [client_a True, client_b],
      refreshes = [], rands = [],
      trace = [CreateClient (Some ''1'') ''a'', CreateClient (Some ''2'') ''b'',
               Emit ''ready'' None, SendCommand 0 ''cluster'' [''slots''], ClientQuit 1 False]\<rparr>"
  by (simp add: cluster1_def cluster_ready_eq eval_defs upt_rec)

subsection \<open>Hash tags\<close>

lemma indexOf_ge: "indexOf ch xs \<ge> - 1"
  by (induction xs) (auto simp: Let_def)

lemma indexOf_absent: "(indexOf ch xs = - 1) = (ch \<notin> set xs)"
proof (induction xs)
  case Nil then show ?case by simp
next
  case (Cons x xs)
  have "indexOf ch xs \<ge> - 1" by (rule indexOf_ge)
  with Cons show ?case by (auto simp: Let_def)
qed

lemma indexOf_first: "ch \<notin> set pre \<Longrightarrow> indexOf ch (pre @ ch # rest) = int (length pre)"
  by (induction pre) (auto simp: Let_def)

lemma routing_key_tag:
  assumes "CHR ''{'' \<notin> set pre" "CHR ''}'' \<notin> set tag" "tag \<noteq> []"
  shows "routing_key (pre @ ''{'' @ tag @ ''}'' @ post) = tag"
proof -
  have a: "indexOf (CHR ''{'') (pre @ CHR ''{'' # tag @ CHR ''}'' # post) = int (length pre)"
    using assms(1) by (rule indexOf_first)
  have b: "indexOf (CHR ''}'') (tag @ CHR ''}'' # post) = int (length tag)"
    using assms(2) by (rule indexOf_first)
  show ?thesis using a b assms(3) by (simp add: routing_key_def Let_def nat_add_distrib)
qed

lemma routing_key_unclosed:
  assumes "CHR ''{'' \<notin> set pre" "CHR ''}'' \<notin> set rest"
  shows "routing_key (pre @ ''{'' @ rest) = pre @ ''{'' @ rest"
proof -
  have a: "indexOf (CHR ''{'') (pre @ CHR ''{'' # rest) = int (length pre)"
    using assms(1) by (rule indexOf_first)
  have b: "indexOf (CHR ''}'') rest = - 1"
    using assms(2) by (simp add: indexOf_absent)
  show ?thesis using a b by (simp add: routing_key_def Let_def nat_add_distrib)
qed

lemma routing_key_empty_tag:
  assumes "CHR ''{'' \<notin> set pre"
  shows "routing_key (pre @ ''{}'' @ post) = pre @ ''{}'' @ post"
proof -
  have a: "indexOf (CHR ''{'') (pre @ CHR ''{'' # CHR ''}'' # post) = int (length pre)"
    using assms(1) by (rule indexOf_first)
  show ?thesis using a by (simp add: routing_key_def Let_def nat_add_distrib)
qed

lemma routing_key_plain:
  assumes "CHR ''{'' \<notin> set key"
  shows "routing_key key = key"
  using assms by (simp add: routing_key_def indexOf_absent)

lemma routing_key_no_close:
  assumes "CHR ''}'' \<notin> set key"
  shows "routing_key key = key"
proof (cases "CHR ''{'' \<in> set key")
  case False then show ?thesis by (simp add: routing_key_plain)
next
  case True
  then obtain pre rest where k: "key = pre @ CHR ''{'' # rest" "CHR ''{'' \<notin> set pre"
    by (meson split_list_first)
  with assms have "CHR ''}'' \<notin> set rest" by simp
  with k routing_key_unclosed[of pre rest] show ?thesis by simp
qed

text \<open>
  C4.  The slot of a key is the CRC, modulo 16384, of its hash tag when the first \<open>{\<close> is
  followed by a \<open>}\<close> with at least one character between them (the tag being the text up
  to the first such \<open>}\<close>), so a key with tag \<open>T\<close> has the slot of \<open>T\<close>; when the first \<open>{\<close>
  has no \<open>}\<close> after it, when the tag is empty, or when the key has no \<open>{\<close>, the whole key is
  hashed.  This slot is the one \<^verbatim>\<open>selectClient\<close> routes by, for a key given as text, as a
  Buffer or as the first element of an array.
\<close>

theorem slot_hash_tag:
  "(CHR ''{'' \<notin> set pre \<and> CHR ''}'' \<notin> set tag \<and> tag \<noteq> [] \<longrightarrow>
      slot_of (pre @ ''{'' @ tag @ ''}'' @ post) = crc tag mod 16384 \<and>
      slot_of (pre @ ''{'' @ tag @ ''}'' @ post) = slot_of tag) \<and>
   (CHR ''{'' \<notin> set pre \<and> CHR ''}'' \<notin> set rest \<longrightarrow>
      slot_of (pre @ ''{'' @ rest) = crc (pre @ ''{'' @ rest) mod 16384) \<and>
   (CHR ''{'' \<notin> set pre \<longrightarrow>
      slot_of (pre @ ''{}'' @ post) = crc (pre @ ''{}'' @ post) mod 16384) \<and>
   (CHR ''{'' \<notin> set key \<longrightarrow> slot_of key = crc key mod 16384) \<and>
   selectClient c (Str key) cf = Inr (select_slot c (slot_of key) cf) \<and>
   selectClient c (Buf key) cf = selectClient c (Str key) cf \<and>
   selectClient c (Arr (Str key # others)) cf = selectClient c (Str key) cf"
proof -
  have "slot_of (pre @ ''{'' @ tag @ ''}'' @ post) = crc tag mod 16384 \<and>
        slot_of (pre @ ''{'' @ tag @ ''}'' @ post) = slot_of tag"
    if "CHR ''{'' \<notin> set pre" "CHR ''}'' \<notin> set tag" "tag \<noteq> []"
    using that routing_key_tag[of pre tag post] routing_key_no_close[of tag]
    by (simp add: slot_of_def)
  moreover have "slot_of (pre @ ''{'' @ rest) = crc (pre @ ''{'' @ rest) mod 16384"
    if "CHR ''{'' \<notin> set pre" "CHR ''}'' \<notin> set rest"
    using that routing_key_unclosed[of pre rest] by (simp add: slot_of_def)
  moreover have "slot_of (pre @ ''{}'' @ post) = crc (pre @ ''{}'' @ post) mod 16384"
    if "CHR ''{'' \<notin> set pre"
    using that routing_key_empty_tag[of pre post] by (simp add: slot_of_def)
  moreover have "slot_of key = crc key mod 16384" if "CHR ''{'' \<notin> set key"
    using that by (simp add: slot_of_def routing_key_plain)
  moreover have "selectClient c (Str key) cf = Inr (select_slot c (slot_of key) cf)"
    by (simp add: selectClient_def)
  moreover have "selectClient c (Buf key) cf = selectClient c (Str key) cf"
    by (simp add: selectClient_def)
  moreover have "selectClient c (Arr (Str key # others)) cf = selectClient c (Str key) cf"
    by (simp add: selectClient_def)
  ultimately show ?thesis by blast
qed

theorem slot_hash_tag_witness:
  "slot_of ''{user1000}.following'' = crc ''user1000'' mod 16384 \<and>
   slot_of ''{user1000}.following'' = slot_of ''user1000'' \<and>
   slot_of ''{user1000}.following'' = slot_of ''{user1000}.followers'' \<and>
   slot_of ''foo{bar'' = crc ''foo{bar'' mod 16384 \<and>
   slot_of ''{}foo'' = crc ''{}foo'' mod 16384 \<and>
   slot_of ''foo'' = crc ''foo'' mod 16384"
  using slot_hash_tag[where pre="[]" and tag="''user1000''" and post="''.following''" and key="''foo''"]
        slot_hash_tag[where pre="[]" and tag="''user1000''" and post="''.followers''" and rest="[]"]
        slot_hash_tag[where pre="''foo''" and tag="''t''" and post="[]" and rest="''bar''"]
        slot_hash_tag[where pre="[]" and tag="''t''" and post="''foo''" and rest="[]"]
  by simp

subsection \<open>Commands without a key\<close>

text \<open>
  C9.  When the first argument of a command is falsy (the empty string, the number 0,
  \<^verbatim>\<open>null\<close>, \<^verbatim>\<open>false\<close>, \<^verbatim>\<open>undefined\<close>), \<^verbatim>\<open>doCommand\<close> calls the callback with the error
  \<^verbatim>\<open>no key for command: <cmd>\<close> and does nothing else: nothing is sent to a node, and the
  outcome is the one of a call whose key is \<^verbatim>\<open>undefined\<close> or absent.
\<close>

theorem doCommand_falsy_key:
  assumes "\<not> truthy key"
  shows "doCommand c cmd cf (key # rest) =
           (None,
            c\<lparr>trace := trace c @
               [Call (callback_of (key # rest)) (Some (new_Error (''no key for command: '' @ cmd))) NoValue]\<rparr>,
            None) \<and>
         doCommand c cmd cf (key # rest) = doCommand c cmd cf (Undefined # rest) \<and>
         (rest = [] \<longrightarrow> doCommand c cmd cf [key] = doCommand c cmd cf [])"
proof -
  have cb: "callback_of (key # rest) = callback_of (Undefined # rest)"
    using assms by (cases key) (auto simp: callback_of_def)
  have cb0: "callback_of [key] = callback_of []"
    using assms by (cases key) (auto simp: callback_of_def)
  show ?thesis using assms cb cb0
    by (simp add: doCommand_def first_arg_def emit_def Let_def)
qed

theorem doCommand_falsy_key_witness:
  "\<not> truthy (Str '''') \<and> \<not> truthy (Num 0) \<and>
   doCommand cluster1 ''get'' \<lparr>conf_readOnly = True\<rparr> [Str '''', Func 1] =
     (None, cluster1\<lparr>trace := trace cluster1 @
        [Call (Fn 1) (Some (new_Error ''no key for command: get'')) NoValue]\<rparr>, None) \<and>
   doCommand cluster1 ''get'' \<lparr>conf_readOnly = True\<rparr> [Num 0, Func 1] =
     (None, cluster1\<lparr>trace := trace cluster1 @
        [Call (Fn 1) (Some (new_Error ''no key for command: get'')) NoValue]\<rparr>, None) \<and>
   doCommand cluster1 ''get'' \<lparr>conf_readOnly = True\<rparr> [Num 0] =
     doCommand cluster1 ''get'' \<lparr>conf_readOnly = True\<rparr> []"
proof -
  have t1: "\<not> truthy (Str '''')" and t2: "\<not> truthy (Num 0)" by simp_all
  have a: "doCommand cluster1 ''get'' \<lparr>conf_readOnly = True\<rparr> [Str '''', Func 1] =
     (None, cluster1\<lparr>trace := trace cluster1 @
        [Call (Fn 1) (Some (new_Error ''no key for command: get'')) NoValue]\<rparr>, None)"
    using doCommand_falsy_key[OF t1, of cluster1 "''get''" "\<lparr>conf_readOnly = True\<rparr>" "[Func 1]"]
    by (simp add: callback_of_def)
  have b: "doCommand cluster1 ''get'' \<lparr>conf_readOnly = True\<rparr> [Num 0, Func 1] =
     (None, cluster1\<lparr>trace := trace cluster1 @
        [Call (Fn 1) (Some (new_Error ''no key for command: get'')) NoValue]\<rparr>, None)"
    using doCommand_falsy_key[OF t2, of cluster1 "''get''" "\<lparr>conf_readOnly = True\<rparr>" "[Func 1]"]
    by (simp add: callback_of_def)
  have c: "doCommand cluster1 ''get'' \<lparr>conf_readOnly = True\<rparr> [Num 0] =
     doCommand cluster1 ''get'' \<lparr>conf_readOnly = True\<rparr> []"
    using doCommand_falsy_key[OF t2, of cluster1 "''get''" "\<lparr>conf_readOnly = True\<rparr>" "[]"]
    by blast
  show ?thesis using t1 t2 a b c by blast
qed

subsection \<open>What the discovery functions leave alone\<close>

lemma invocations_append [simp]: "invocations (xs @ ys) = invocations xs + invocations ys"
  by (simp add: invocations_def)

lemma invocations_Calls [simp]: "invocations (map (\<lambda>cb. Call cb err res) q) = 0"
  by (induction q) (simp_all add: invocations_def)

lemma invocations_simps [simp]:
  "invocations [] = 0"
  "invocations (Invoke cid cmd args # es) = Suc (invocations es)"
  "invocations (Call cb err p # es) = invocations es"
  "invocations (SendCommand cid cmd sargs # es) = invocations es"
  "invocations (CreateClient port host # es) = invocations es"
  "invocations (SetTimeout d # es) = invocations es"
  "invocations (ClearTimeout # es) = invocations es"
  "invocations (ClearInterval # es) = invocations es"
  "invocations (SetInterval t # es) = invocations es"
  "invocations (Emit name eo # es) = invocations es"
  "invocations (ClientQuit cid b # es) = invocations es"
  "invocations (CallQuit cb eso # es) = invocations es"
  by (simp_all add: invocations_def)

lemma random_index_fields [simp]:
  "trace (snd (random_index c n)) = trace c"
  "slotQ (snd (random_index c n)) = slotQ c"
  "refreshes (snd (random_index c n)) = refreshes c"
  "quitting (snd (random_index c n)) = quitting c"
  "connections (snd (random_index c n)) = connections c"
  "slots (snd (random_index c n)) = slots c"
  "clients (snd (random_index c n)) = clients c"
  "config (snd (random_index c n)) = config c"
  "ready (snd (random_index c n)) = ready c"
  by (simp_all add: random_index_def split: list.splits)

lemma getRandomConnection_fields [simp]:
  "trace (snd (getRandomConnection c ex)) = trace c"
  "slotQ (snd (getRandomConnection c ex)) = slotQ c"
  "refreshes (snd (getRandomConnection c ex)) = refreshes c"
  "quitting (snd (getRandomConnection c ex)) = quitting c"
  "connections (snd (getRandomConnection c ex)) = connections c"
  "slots (snd (getRandomConnection c ex)) = slots c"
  "clients (snd (getRandomConnection c ex)) = clients c"
  "config (snd (getRandomConnection c ex)) = config c"
  "ready (snd (getRandomConnection c ex)) = ready c"
  by (simp_all add: getRandomConnection_def Let_def split: prod.splits)
     (metis random_index_fields snd_conv)+

lemma runCbs_error_invocations: "invocations (trace (snd (runCbs_error c e))) = invocations (trace c)"
  by (simp add: runCbs_error_def split: option.splits)

lemma tryClient_invocations: "invocations (trace (snd (tryClient c r))) = invocations (trace c)"
proof -
  obtain x c1 where g: "getRandomConnection (if timer r then emit [ClearTimeout] c else c) (Some (exclude r)) = (x, c1)"
    by (cases "getRandomConnection (if timer r then emit [ClearTimeout] c else c) (Some (exclude r))")
  have t: "trace c1 = trace (if timer r then emit [ClearTimeout] c else c)"
    using getRandomConnection_fields(1)[of "if timer r then emit [ClearTimeout] c else c" "Some (exclude r)"] g
    by simp
  show ?thesis using g t
    by (cases x) (simp_all add: tryClient_def Let_def runCbs_error_invocations emit_def)
qed

lemma getSlots_start_invocations:
  "invocations (trace (snd (getSlots_start b c))) = invocations (trace c)"
  by (simp add: getSlots_start_def Let_def tryClient_invocations split: option.splits)

lemma getSlots_invocations: "invocations (trace (snd (getSlots c cb))) = invocations (trace c)"
  by (simp add: getSlots_def Let_def getSlots_start_invocations split: option.splits list.splits)

lemma runCbs_error_ok: "slotQ c \<noteq> None \<Longrightarrow> fst (runCbs_error c e) = None"
  by (auto simp: runCbs_error_def)

lemma tryClient_ok: "slotQ c \<noteq> None \<Longrightarrow> fst (tryClient c r) = None"
proof -
  assume q: "slotQ c \<noteq> None"
  obtain x c1 where g: "getRandomConnection (if timer r then emit [ClearTimeout] c else c) (Some (exclude r)) = (x, c1)"
    by (cases "getRandomConnection (if timer r then emit [ClearTimeout] c else c) (Some (exclude r))")
  have t: "slotQ c1 = slotQ (if timer r then emit [ClearTimeout] c else c)"
    using getRandomConnection_fields(2)[of "if timer r then emit [ClearTimeout] c else c" "Some (exclude r)"] g
    by simp
  show ?thesis using g t q
    by (cases x) (simp_all add: tryClient_def Let_def runCbs_error_ok emit_def)
qed

lemma getSlots_start_ok: "slotQ c \<noteq> None \<Longrightarrow> fst (getSlots_start b c) = None"
  by (simp add: getSlots_start_def Let_def tryClient_ok split: option.splits)

lemma getSlots_ok: "fst (getSlots c cb) = None"
  by (auto simp: getSlots_def Let_def getSlots_start_ok queue_full_def split: option.splits list.splits)

subsection \<open>Redirects and retries of a command\<close>

lemma getClient_invocations: "invocations (trace (fst (getClient c port host))) = invocations (trace c)"
  by (simp add: getClient_def Let_def split: option.splits)

lemma commandReply_retry:
  assumes "retries k \<noteq> 0" "message e \<noteq> []" "take 4 (message e) \<noteq> ''ASK ''"
    "take 6 (message e) \<noteq> ''MOVED ''"
    "take 8 (message e) = ''TRYAGAIN'' \<or> code e = Some ''CLUSTERDOWN''"
  shows "commandReply c k (Some e) res =
           (Sleeping (backoff (retries k - 1)),
            c\<lparr>trace := trace c @ [SetTimeout (backoff (retries k - 1))]\<rparr>,
            k\<lparr>retries := retries k - 1\<rparr>)"
  using assms by (simp add: commandReply_def Let_def emit_def)

lemma tryagain_prefix:
  assumes "take 8 m = ''TRYAGAIN''"
  shows "m \<noteq> [] \<and> take 4 m \<noteq> ''ASK '' \<and> take 6 m \<noteq> ''MOVED ''"
proof -
  have "take 4 (take 8 m) = take 4 m" "take 6 (take 8 m) = take 6 m" by simp_all
  with assms have "take 4 m = ''TRYA''" "take 6 m = ''TRYAGA''" by simp_all
  moreover from assms have "m \<noteq> []" by auto
  ultimately show ?thesis by simp
qed

lemma backoff_le: "backoff n \<le> 1280"
proof -
  have "(2::rat) powi (16 - max n 9) \<le> 2 powi 7"
    by (rule power_int_increasing) simp_all
  then show ?thesis by (simp add: backoff_def)
qed

lemma backoff_ge: "n \<le> 15 \<Longrightarrow> 20 \<le> backoff n"
proof -
  assume "n \<le> 15"
  then have "(2::rat) powi 1 \<le> 2 powi (16 - max n 9)"
    by (intro power_int_increasing) simp_all
  then show ?thesis by (simp add: backoff_def)
qed

lemma backoff_values: "backoff 15 = 20" "backoff 14 = 40" "backoff 13 = 80" "backoff 9 = 1280" "backoff 0 = 1280"
  by (simp_all add: backoff_def)

text \<open>
  C2 (as amended).  On a reply whose message starts with \<^verbatim>\<open>TRYAGAIN\<close>, or whose code is
  \<^verbatim>\<open>CLUSTERDOWN\<close>, with the counter \<^verbatim>\<open>retries\<close> not yet zero, the command is re-issued after
  \<open>10 * 2^(16 - max(n, 9))\<close> milliseconds, \<open>n\<close> being the counter after this reply's decrement.
  The delay is at most 1280ms, at least 20ms for a counter that started at 16, and 20ms
  (not 80ms) on the first reply of a command.
\<close>

theorem backoff_delay:
  assumes "retries k \<noteq> 0"
    and "take 8 (message e) = ''TRYAGAIN'' \<or>
         (code e = Some ''CLUSTERDOWN'' \<and> message e \<noteq> [] \<and>
          take 4 (message e) \<noteq> ''ASK '' \<and> take 6 (message e) \<noteq> ''MOVED '')"
  shows "commandReply c k (Some e) res =
           (Sleeping (10 * 2 powi (16 - max (retries k - 1) 9)),
            c\<lparr>trace := trace c @ [SetTimeout (10 * 2 powi (16 - max (retries k - 1) 9))]\<rparr>,
            k\<lparr>retries := retries k - 1\<rparr>) \<and>
         10 * 2 powi (16 - max (retries k - 1) 9) \<le> (1280::rat) \<and>
         (retries k \<le> 16 \<longrightarrow> (20::rat) \<le> 10 * 2 powi (16 - max (retries k - 1) 9)) \<and>
         (retries k = 16 \<longrightarrow> 10 * 2 powi (16 - max (retries k - 1) 9) = (20::rat))"
proof -
  have b: "backoff (retries k - 1) = 10 * 2 powi (16 - max (retries k - 1) 9)"
    by (simp add: backoff_def)
  have pre: "message e \<noteq> [] \<and> take 4 (message e) \<noteq> ''ASK '' \<and> take 6 (message e) \<noteq> ''MOVED ''"
    using assms(2) tryagain_prefix[of "message e"] by blast
  have kind: "take 8 (message e) = ''TRYAGAIN'' \<or> code e = Some ''CLUSTERDOWN''"
    using assms(2) by blast
  have r: "commandReply c k (Some e) res =
           (Sleeping (backoff (retries k - 1)),
            c\<lparr>trace := trace c @ [SetTimeout (backoff (retries k - 1))]\<rparr>,
            k\<lparr>retries := retries k - 1\<rparr>)"
    using commandReply_retry[OF assms(1) _ _ _ kind] pre by blast
  have le: "backoff (retries k - 1) \<le> 1280" by (rule backoff_le)
  have ge: "20 \<le> backoff (retries k - 1)" if "retries k \<le> 16"
    using that by (intro backoff_ge) simp
  have first: "backoff (retries k - 1) = 20" if "retries k = 16"
    using that by (simp add: backoff_values)
  show ?thesis using r le ge first unfolding b by blast
qed

theorem backoff_delay_witness:
  "retries command0 \<noteq> 0 \<and> take 8 (message tryagain) = ''TRYAGAIN'' \<and>
   commandReply cluster1 command0 (Some tryagain) Undefined =
     (Sleeping 20, cluster1\<lparr>trace := trace cluster1 @ [SetTimeout 20]\<rparr>, command0\<lparr>retries := 15\<rparr>) \<and>
   code clusterdown = Some ''CLUSTERDOWN'' \<and>
   commandReply cluster1 (command0\<lparr>retries := 3\<rparr>) (Some clusterdown) Undefined =
     (Sleeping 1280, cluster1\<lparr>trace := trace cluster1 @ [SetTimeout 1280]\<rparr>, command0\<lparr>retries := 2\<rparr>)"
proof -
  have h1: "retries command0 \<noteq> 0" by (simp add: command0_def commandCallback_def)
  have h2: "take 8 (message tryagain) = ''TRYAGAIN''" by (simp add: tryagain_def)
  have r16: "retries command0 = 16" by (simp add: command0_def commandCallback_def)
  have h3: "retries (command0\<lparr>retries := 3\<rparr>) \<noteq> 0" by simp
  have h4: "code clusterdown = Some ''CLUSTERDOWN'' \<and> message clusterdown \<noteq> [] \<and>
          take 4 (message clusterdown) \<noteq> ''ASK '' \<and> take 6 (message clusterdown) \<noteq> ''MOVED ''"
    by (simp add: clusterdown_def)
  have a: "commandReply cluster1 command0 (Some tryagain) Undefined =
     (Sleeping 20, cluster1\<lparr>trace := trace cluster1 @ [SetTimeout 20]\<rparr>, command0\<lparr>retries := 15\<rparr>)"
    using backoff_delay[OF h1 disjI1[OF h2], of cluster1 Undefined] r16 by simp
  have b: "commandReply cluster1 (command0\<lparr>retries := 3\<rparr>) (Some clusterdown) Undefined =
     (Sleeping 1280, cluster1\<lparr>trace := trace cluster1 @ [SetTimeout 1280]\<rparr>, command0\<lparr>retries := 2\<rparr>)"
    using backoff_delay[OF h3 disjI2[OF h4], of cluster1 Undefined] by simp
  show ?thesis using h1 h2 h4 a b by blast
qed

theorem first_retry_delay_counterexample:
  "fst (commandReply cluster1 command0 (Some tryagain) Undefined) = Sleeping 20 \<and>
   fst (commandReply cluster1 command0 (Some tryagain) Undefined) \<noteq> Sleeping 80"
  by (simp add: commandReply_retry command0_def commandCallback_def tryagain_def backoff_def)

lemma commandReply_step:
  assumes "commandReply c k err res = (out, c1, k1)"
  shows "k_cb k1 = k_cb k \<and> (out = Reissued \<longrightarrow> retries k \<noteq> 0 \<and> retries k1 = retries k - 1 \<and>
            invocations (trace c1) = Suc (invocations (trace c))) \<and>
         (\<forall>d. out = Sleeping d \<longrightarrow> retries k \<noteq> 0 \<and> retries k1 = retries k - 1 \<and>
            invocations (trace c1) = invocations (trace c)) \<and>
         (out = Surfaced \<longrightarrow> c1 = c\<lparr>trace := trace c @ [Call (k_cb k) err (Value res)]\<rparr>) \<and>
         (\<forall>x. out = Threw x \<longrightarrow> invocations (trace c1) = invocations (trace c))"
proof (cases err)
  case None
  with assms show ?thesis by (auto simp: commandReply_def emit_def)
next
  case (Some e)
  show ?thesis
  proof (cases "message e = [] \<or> retries k = 0")
    case True
    with assms Some show ?thesis
      by (auto simp: commandReply_def emit_def Let_def split: if_splits)
  next
    case False
    define ask where "ask = (take 4 (message e) = ''ASK '')"
    define moved where "moved = (\<not> ask \<and> take 6 (message e) = ''MOVED '')"
    show ?thesis
    proof (cases "moved \<or> ask")
      case redirect: True
      obtain x c0 where g: "(if moved then getSlots c None else (None, c)) = (x, c0)"
        by (cases "if moved then getSlots c None else (None, c)")
      have x: "x = None" using g getSlots_ok[of c None] by (auto split: if_splits)
      have inv0: "invocations (trace c0) = invocations (trace c)"
        using g getSlots_invocations[of c None] by (auto split: if_splits)
      show ?thesis
      proof (cases "nth_opt (split_on (CHR '' '') (message e)) 2")
        case None
        with assms Some False redirect g x inv0 show ?thesis
          unfolding ask_def moved_def
          by (auto simp: commandReply_def Let_def)
      next
        case (Some addr)
        obtain c2 cid where gc: "getClient c0 (nth_opt (split_on (CHR '':'') addr) 1) (hd (split_on (CHR '':'') addr)) = (c2, cid)"
          by (cases "getClient c0 (nth_opt (split_on (CHR '':'') addr) 1) (hd (split_on (CHR '':'') addr))")
        have inv2: "invocations (trace c2) = invocations (trace c)"
          using gc getClient_invocations[of c0 "nth_opt (split_on (CHR '':'') addr) 1" "hd (split_on (CHR '':'') addr)"] inv0
          by simp
        from assms \<open>err = Some e\<close> False redirect g x Some gc inv2 show ?thesis
          unfolding ask_def moved_def
          by (auto simp: commandReply_def Let_def emit_def)
      qed
    next
      case noredirect: False
      with assms Some False show ?thesis
        unfolding ask_def moved_def
        by (auto simp: commandReply_def Let_def emit_def split: if_splits)
    qed
  qed
qed

lemma replies_loop_bound:
  "0 \<le> retries k \<Longrightarrow>
   invocations (trace (fst (snd (replies_loop c k rs)))) \<le> invocations (trace c) + nat (retries k)"
proof (induction rs arbitrary: c k)
  case Nil
  then show ?case by simp
next
  case (Cons r rs)
  obtain err res where r: "r = (err, res)" by (cases r)
  obtain out c1 k1 where s: "commandReply c k err res = (out, c1, k1)"
    by (cases "commandReply c k err res")
  note st = commandReply_step[OF s]
  show ?case
  proof (cases out)
    case Reissued
    with st have a: "retries k \<noteq> 0" "retries k1 = retries k - 1"
      "invocations (trace c1) = Suc (invocations (trace c))" by auto
    with Cons.prems have "0 \<le> retries k1" by simp
    from Cons.IH[OF this, of c1] a Cons.prems r s Reissued show ?thesis by simp
  next
    case (Sleeping d)
    with st have a: "retries k \<noteq> 0" "retries k1 = retries k - 1"
      "invocations (trace c1) = invocations (trace c)" by auto
    with Cons.prems have "0 \<le> retries k1" by simp
    from Cons.IH[OF this, of "retryFired c1 k1"] a Cons.prems r s Sleeping show ?thesis
      by (simp add: retryFired_def emit_def)
  next
    case Surfaced
    with st r s show ?thesis by simp
  next
    case (Threw x)
    with st r s show ?thesis by simp
  qed
qed

lemma replies_loop_ends:
  "0 \<le> retries k \<Longrightarrow> nat (retries k) < length rs \<Longrightarrow> fst (replies_loop c k rs) \<noteq> None"
proof (induction rs arbitrary: c k)
  case Nil
  then show ?case by simp
next
  case (Cons r rs)
  obtain err res where r: "r = (err, res)" by (cases r)
  obtain out c1 k1 where s: "commandReply c k err res = (out, c1, k1)"
    by (cases "commandReply c k err res")
  note st = commandReply_step[OF s]
  show ?case
  proof (cases out)
    case Reissued
    with st have a: "retries k \<noteq> 0" "retries k1 = retries k - 1" by auto
    with Cons.prems have "0 \<le> retries k1" "nat (retries k1) < length rs" by auto
    from Cons.IH[OF this, of c1] r s Reissued show ?thesis by simp
  next
    case (Sleeping d)
    with st have a: "retries k \<noteq> 0" "retries k1 = retries k - 1" by auto
    with Cons.prems have "0 \<le> retries k1" "nat (retries k1) < length rs" by auto
    from Cons.IH[OF this, of "retryFired c1 k1"] r s Sleeping show ?thesis by simp
  next
    case Surfaced
    with r s show ?thesis by simp
  next
    case (Threw x)
    with r s show ?thesis by simp
  qed
qed

lemma select_index_trace [simp]: "trace (snd (select_index c cf n)) = trace c"
  by (simp add: select_index_def Let_def split: prod.splits)
     (metis random_index_fields(1) snd_conv)+

lemma select_slot_invocations:
  "invocations (trace (snd (select_slot c slot cf))) = invocations (trace c)"
proof -
  have a: "invocations (trace (snd (getRandomConnection c None))) = invocations (trace c)" by simp
  have b: "invocations (trace c1) = invocations (trace c)"
    if "select_index c cf n = (i, c1)" for n i c1
    using select_index_trace[of c cf n] that by simp
  show ?thesis using a
    by (auto simp: select_slot_def Let_def set_readOnly_def emit_def
             split: option.splits prod.splits dest: b)
qed

lemma selectClient_invocations:
  "selectClient c key cf = Inr (r, c1) \<Longrightarrow> invocations (trace c1) = invocations (trace c)"
  using select_slot_invocations[of c _ cf]
  by (auto simp: selectClient_def Let_def split: jsval.splits list.splits) (metis snd_conv)+

lemma doCommand_dispatch:
  assumes "doCommand c cmd cf args = (x, c1, Some k)"
  shows "retries k = 16 \<and> k_cb k = callback_of args \<and>
         invocations (trace c1) = Suc (invocations (trace c))"
  using assms
  by (auto simp: doCommand_def Let_def emit_def commandCallback_def
           split: if_splits prod.splits sum.splits option.splits
           dest: selectClient_invocations)

lemma replies_loop_surfaced:
  "fst (replies_loop c k rs) = Some Surfaced \<Longrightarrow>
   \<exists>err res c'. (err, res) \<in> set rs \<and>
      fst (snd (replies_loop c k rs)) = c'\<lparr>trace := trace c' @ [Call (k_cb k) err (Value res)]\<rparr>"
proof (induction rs arbitrary: c k)
  case Nil
  then show ?case by simp
next
  case (Cons r rs)
  obtain err res where r: "r = (err, res)" by (cases r)
  obtain out c1 k1 where s: "commandReply c k err res = (out, c1, k1)"
    by (cases "commandReply c k err res")
  note st = commandReply_step[OF s]
  show ?case
  proof (cases out)
    case Reissued
    with Cons.prems r s have "fst (replies_loop c1 k1 rs) = Some Surfaced" by simp
    from Cons.IH[OF this] st r s Reissued show ?thesis by auto
  next
    case (Sleeping d)
    with Cons.prems r s have "fst (replies_loop (retryFired c1 k1) k1 rs) = Some Surfaced" by simp
    from Cons.IH[OF this] st r s Sleeping show ?thesis by auto
  next
    case Surfaced
    with st r s show ?thesis by auto
  next
    case (Threw x)
    with Cons.prems r s show ?thesis by simp
  qed
qed

lemma commandReply_exhausted:
  "retries k = 0 \<Longrightarrow>
   fst (commandReply c k err res) = Surfaced \<and>
   fst (snd (commandReply c k err res)) = c\<lparr>trace := trace c @ [Call (k_cb k) err (Value res)]\<rparr>"
  by (auto simp: commandReply_def emit_def Let_def split: option.splits)

lemma tryagain_count:
  "0 \<le> retries k \<Longrightarrow>
   invocations (trace (fst (snd (replies_loop c k (replicate n (Some tryagain, res)))))) =
     invocations (trace c) + min n (nat (retries k))"
proof (induction n arbitrary: c k)
  case 0
  then show ?case by simp
next
  case (Suc n)
  show ?case
  proof (cases "retries k = 0")
    case True
    then show ?thesis
      using commandReply_exhausted[OF True, of c "Some tryagain" res]
      by (cases "commandReply c k (Some tryagain) res") auto
  next
    case False
    have step: "commandReply c k (Some tryagain) res =
           (Sleeping (backoff (retries k - 1)),
            c\<lparr>trace := trace c @ [SetTimeout (backoff (retries k - 1))]\<rparr>,
            k\<lparr>retries := retries k - 1\<rparr>)"
      by (rule commandReply_retry[OF False]) (simp_all add: tryagain_def)
    have "0 \<le> retries (k\<lparr>retries := retries k - 1\<rparr>)" using Suc.prems False by simp
    from Suc.IH[OF this, of "retryFired (c\<lparr>trace := trace c @ [SetTimeout (backoff (retries k - 1))]\<rparr>) (k\<lparr>retries := retries k - 1\<rparr>)"]
    show ?thesis using step False Suc.prems
      by (simp add: retryFired_def emit_def)
  qed
qed

lemma tryagain_run:
  "0 \<le> retries k \<Longrightarrow> nat (retries k) < n \<Longrightarrow>
   fst (replies_loop c k (replicate n (Some tryagain, res))) = Some Surfaced"
proof (induction n arbitrary: c k)
  case 0
  then show ?case by simp
next
  case (Suc n)
  show ?case
  proof (cases "retries k = 0")
    case True
    then show ?thesis
      using commandReply_exhausted[OF True, of c "Some tryagain" res]
      by (cases "commandReply c k (Some tryagain) res") auto
  next
    case False
    have step: "commandReply c k (Some tryagain) res =
           (Sleeping (backoff (retries k - 1)),
            c\<lparr>trace := trace c @ [SetTimeout (backoff (retries k - 1))]\<rparr>,
            k\<lparr>retries := retries k - 1\<rparr>)"
      by (rule commandReply_retry[OF False]) (simp_all add: tryagain_def)
    have "0 \<le> retries (k\<lparr>retries := retries k - 1\<rparr>)"
         "nat (retries (k\<lparr>retries := retries k - 1\<rparr>)) < n"
      using Suc.prems False by auto
    from Suc.IH[OF this, of "retryFired (c\<lparr>trace := trace c @ [SetTimeout (backoff (retries k - 1))]\<rparr>) (k\<lparr>retries := retries k - 1\<rparr>)"]
    show ?thesis using step by simp
  qed
qed

lemma slot_la2: "slot_of ''la2'' = 0"
  by (simp add: slot_of_def routing_key_def crc_def crc_byte_def crc_shift_def)

lemma doCommand_cluster1:
  "doCommand cluster1 ''get'' \<lparr>conf_readOnly = False\<rparr> [Str ''la2'', Func 1] = (None, dispatched1, Some command0)"
  by (simp add: doCommand_def first_arg_def callback_of_def argsCb_def selectClient_def slot_la2
        select_slot_def select_index_def cluster1_eq client_of_def emit_def command0_def
        commandCallback_def dispatched1_def client_a_def Let_def)

text \<open>
  C1 (as amended).  From its dispatch by \<^verbatim>\<open>doCommand\<close> on, whatever the replies, a command
  is handed to a node client at most 17 times: once at first and at most 16 times again,
  one for each MOVED, ASK, TRYAGAIN or CLUSTERDOWN reply while the counter \<^verbatim>\<open>retries\<close> is
  not zero.  Once 17 replies have arrived the command has ended; a command that ends by
  surfacing passes one of the replies to the caller's callback, and with the counter at
  zero any reply is passed to it.
\<close>

theorem invocations_bounded:
  assumes "doCommand c cmd cf args = (x, c1, Some k)"
  shows "invocations (trace (fst (snd (replies_loop c1 k rs)))) \<le> invocations (trace c) + 17 \<and>
         (16 < length rs \<longrightarrow> fst (replies_loop c1 k rs) \<noteq> None) \<and>
         (fst (replies_loop c1 k rs) = Some Surfaced \<longrightarrow>
            (\<exists>err res c'. (err, res) \<in> set rs \<and>
               fst (snd (replies_loop c1 k rs)) =
                 c'\<lparr>trace := trace c' @ [Call (callback_of args) err (Value res)]\<rparr>)) \<and>
         (fst (commandReply c2 (k\<lparr>retries := 0\<rparr>) err2 res2) = Surfaced \<and>
          fst (snd (commandReply c2 (k\<lparr>retries := 0\<rparr>) err2 res2)) =
            c2\<lparr>trace := trace c2 @ [Call (callback_of args) err2 (Value res2)]\<rparr>)"
proof -
  from doCommand_dispatch[OF assms] have d: "retries k = 16" "k_cb k = callback_of args"
    "invocations (trace c1) = Suc (invocations (trace c))" by auto
  have "invocations (trace (fst (snd (replies_loop c1 k rs)))) \<le> invocations (trace c1) + nat (retries k)"
    by (rule replies_loop_bound) (simp add: d)
  then have a: "invocations (trace (fst (snd (replies_loop c1 k rs)))) \<le> invocations (trace c) + 17"
    using d by simp
  have b: "fst (replies_loop c1 k rs) \<noteq> None" if "16 < length rs"
    by (rule replies_loop_ends) (use that d in simp_all)
  have e: "\<exists>err res c'. (err, res) \<in> set rs \<and>
               fst (snd (replies_loop c1 k rs)) =
                 c'\<lparr>trace := trace c' @ [Call (callback_of args) err (Value res)]\<rparr>"
    if "fst (replies_loop c1 k rs) = Some Surfaced"
    using replies_loop_surfaced[OF that] d by simp
  have f: "fst (commandReply c2 (k\<lparr>retries := 0\<rparr>) err2 res2) = Surfaced \<and>
          fst (snd (commandReply c2 (k\<lparr>retries := 0\<rparr>) err2 res2)) =
            c2\<lparr>trace := trace c2 @ [Call (callback_of args) err2 (Value res2)]\<rparr>"
    using commandReply_exhausted[of "k\<lparr>retries := 0\<rparr>" c2 err2 res2] d by simp
  show ?thesis using a b e f by blast
qed

theorem invocations_bounded_witness:
  "doCommand cluster1 ''get'' \<lparr>conf_readOnly = False\<rparr> [Str ''la2'', Func 1] = (None, dispatched1, Some command0) \<and>
   invocations (trace (fst (snd (replies_loop dispatched1 command0 (replicate 17 (Some tryagain, Undefined)))))) \<le>
     invocations (trace cluster1) + 17 \<and>
   fst (replies_loop dispatched1 command0 (replicate 17 (Some tryagain, Undefined))) = Some Surfaced \<and>
   last (trace (fst (snd (replies_loop dispatched1 command0 (replicate 17 (Some tryagain, Undefined)))))) =
     Call (Fn 1) (Some tryagain) (Value Undefined)"
proof -
  note t = invocations_bounded[OF doCommand_cluster1, of "replicate 17 (Some tryagain, Undefined)"]
  have s: "fst (replies_loop dispatched1 command0 (replicate 17 (Some tryagain, Undefined))) = Some Surfaced"
    by (rule tryagain_run) (simp_all add: command0_def commandCallback_def)
  from t s obtain err res c' where
    e: "(err, res) \<in> set (replicate 17 (Some tryagain, Undefined))"
       "fst (snd (replies_loop dispatched1 command0 (replicate 17 (Some tryagain, Undefined)))) =
          c'\<lparr>trace := trace c' @ [Call (callback_of [Str ''la2'', Func 1]) err (Value res)]\<rparr>"
    by blast
  from e(1) have "err = Some tryagain" "res = Undefined" by auto
  with e(2) have l: "last (trace (fst (snd (replies_loop dispatched1 command0 (replicate 17 (Some tryagain, Undefined)))))) =
     Call (Fn 1) (Some tryagain) (Value Undefined)"
    by (simp add: callback_of_def)
  show ?thesis using t s l doCommand_cluster1 by blast
qed

theorem seventeen_invocations_counterexample:
  "doCommand cluster1 ''get'' \<lparr>conf_readOnly = False\<rparr> [Str ''la2'', Func 1] = (None, dispatched1, Some command0) \<and>
   invocations (trace cluster1) = 0 \<and>
   invocations (trace (fst (snd (replies_loop dispatched1 command0 (replicate 17 (Some tryagain, Undefined)))))) = 17 \<and>
   \<not> invocations (trace (fst (snd (replies_loop dispatched1 command0 (replicate 17 (Some tryagain, Undefined)))))) \<le> 16"
proof -
  have r: "0 \<le> retries command0" "nat (retries command0) = 16"
    by (simp_all add: command0_def commandCallback_def)
  have i: "invocations (trace cluster1) = 0" by (simp add: cluster1_eq)
  have d: "invocations (trace dispatched1) = 1" by (simp add: dispatched1_def i)
  have "invocations (trace (fst (snd (replies_loop dispatched1 command0 (replicate 17 (Some tryagain, Undefined)))))) = 17"
    using tryagain_count[OF r(1), of dispatched1 17 Undefined] r(2) d by simp
  with i doCommand_cluster1 show ?thesis by simp
qed



lemma split_on_nonempty: "split_on ch s \<noteq> []"
  by (induction s) (auto split: list.splits)




lemma getClient_fields:
  "slots (fst (getClient c port host)) = slots c"
  "slotQ (fst (getClient c port host)) = slotQ c"
  "refreshes (fst (getClient c port host)) = refreshes c"
  "quitting (fst (getClient c port host)) = quitting c"
  "ready (fst (getClient c port host)) = ready c"
  "config (fst (getClient c port host)) = config c"
  "rands (fst (getClient c port host)) = rands c"
  by (simp_all add: getClient_def Let_def split: option.splits)







subsection \<open>The queue of a running refresh\<close>

lemma slotQ_same: "slotQ c = Some q \<Longrightarrow> c\<lparr>slotQ := Some q\<rparr> = c"
  by (cases c) simp

lemma getSlots_enqueue:
  assumes "slotQ c = Some q" "\<not> queue_full c q"
  shows "getSlots c (Some f) = (None, c\<lparr>slotQ := Some (q @ [f])\<rparr>)"
  using assms by (simp add: getSlots_def getSlots_start_def Let_def)

lemma getSlots_evict:
  assumes "slotQ c = Some q" "queue_full c q" "queueShift (config c) \<noteq> Some False"
  shows "getSlots c (Some f) =
           (None, c\<lparr>slotQ := Some (tl q @ [f]),
                     trace := trace c @ [Call (hd q) (Some (new_Error ''max slot queue length reached'')) NoValue]\<rparr>)"
proof -
  from assms(2) have "q \<noteq> []" by (auto simp: queue_full_def split: option.splits)
  then obtain x xs where "q = x # xs" by (cases q) auto
  with assms show ?thesis by (simp add: getSlots_def getSlots_start_def Let_def)
qed

lemma getSlots_reject:
  assumes "slotQ c = Some q" "queue_full c q" "queueShift (config c) = Some False"
  shows "getSlots c (Some f) =
           (None, c\<lparr>trace := trace c @ [Call f (Some (new_Error ''max slot queue length reached'')) NoValue]\<rparr>)"
  using assms slotQ_same[OF assms(1)] by (simp add: getSlots_def Let_def)

text \<open>
  C5 (as amended).  While a refresh is running (the queue exists), a callback that arrives
  when the queue holds exactly \<^verbatim>\<open>maxQueueLength\<close> callbacks, \<^verbatim>\<open>maxQueueLength\<close> being
  configured and not zero, is handled by \<^verbatim>\<open>queueShift\<close>: unless it is \<^verbatim>\<open>false\<close> the eldest
  callback is shifted off and called with \<^verbatim>\<open>max slot queue length reached\<close> and the newcomer
  is pushed; if it is \<^verbatim>\<open>false\<close> the newcomer is called with that error and not pushed.
  When \<^verbatim>\<open>maxQueueLength\<close> is not configured there is no bound: the newcomer is pushed
  whatever the length of the queue.
\<close>

theorem queue_overflow:
  assumes "slotQ c = Some q"
  shows "(maxQueueLength (config c) = Some (length q) \<and> q \<noteq> [] \<and> queueShift (config c) \<noteq> Some False \<longrightarrow>
            getSlots c (Some f) =
              (None, c\<lparr>slotQ := Some (tl q @ [f]),
                        trace := trace c @
                          [Call (hd q) (Some (new_Error ''max slot queue length reached'')) NoValue]\<rparr>)) \<and>
         (maxQueueLength (config c) = Some (length q) \<and> q \<noteq> [] \<and> queueShift (config c) = Some False \<longrightarrow>
            getSlots c (Some f) =
              (None, c\<lparr>trace := trace c @
                          [Call f (Some (new_Error ''max slot queue length reached'')) NoValue]\<rparr>)) \<and>
         (maxQueueLength (config c) = None \<longrightarrow>
            getSlots c (Some f) = (None, c\<lparr>slotQ := Some (q @ [f])\<rparr>))"
proof -
  have full: "queue_full c q" if "maxQueueLength (config c) = Some (length q)" "q \<noteq> []"
    using that by (simp add: queue_full_def)
  have nofull: "\<not> queue_full c q" if "maxQueueLength (config c) = None"
    using that by (simp add: queue_full_def)
  show ?thesis
    using getSlots_evict[OF assms full, of f] getSlots_reject[OF assms full, of f]
          getSlots_enqueue[OF assms nofull, of f]
    by blast
qed

lemma fold_enqueue:
  "slotQ c = Some q \<Longrightarrow> maxQueueLength (config c) = None \<Longrightarrow>
   fold (\<lambda>f c. snd (getSlots c (Some f))) fs c = c\<lparr>slotQ := Some (q @ fs)\<rparr>"
proof (induction fs arbitrary: c q)
  case Nil
  then show ?case by (simp add: slotQ_same)
next
  case (Cons f fs)
  have "\<not> queue_full c q" using Cons.prems by (simp add: queue_full_def)
  from getSlots_enqueue[OF Cons.prems(1) this, of f]
  have g: "snd (getSlots c (Some f)) = c\<lparr>slotQ := Some (q @ [f])\<rparr>" by simp
  show ?case using Cons.IH[of "c\<lparr>slotQ := Some (q @ [f])\<rparr>" "q @ [f]"] Cons.prems g by simp
qed

lemma waiting16_eq: "waiting16 = cluster0\<lparr>slotQ := Some queue16\<rparr>"
  unfolding waiting16_def
  using fold_enqueue[of cluster0 "[]" queue16] by (simp add: cluster0_eq cfg0_def)

lemma waiting2_shift_eq:
  "waiting2 cfg_shift = cluster0\<lparr>config := cfg_shift, slotQ := Some [Fn 1, Fn 2]\<rparr>"
  by (simp add: waiting2_def cfg_shift_def cluster0_eq cfg0_def eval_defs client_a_def client_b_def)

lemma waiting2_reject_eq:
  "waiting2 cfg_reject = cluster0\<lparr>config := cfg_reject, slotQ := Some [Fn 1, Fn 2]\<rparr>"
  by (simp add: waiting2_def cfg_reject_def cluster0_eq cfg0_def eval_defs client_a_def client_b_def)

theorem queue_overflow_witness:
  "slotQ (waiting2 cfg_shift) = Some [Fn 1, Fn 2] \<and>
   maxQueueLength (config (waiting2 cfg_shift)) = Some 2 \<and>
   getSlots (waiting2 cfg_shift) (Some (Fn 3)) =
     (None, (waiting2 cfg_shift)\<lparr>slotQ := Some [Fn 2, Fn 3],
        trace := trace (waiting2 cfg_shift) @
          [Call (Fn 1) (Some (new_Error ''max slot queue length reached'')) NoValue]\<rparr>) \<and>
   slotQ (waiting2 cfg_reject) = Some [Fn 1, Fn 2] \<and>
   queueShift (config (waiting2 cfg_reject)) = Some False \<and>
   getSlots (waiting2 cfg_reject) (Some (Fn 3)) =
     (None, (waiting2 cfg_reject)\<lparr>
        trace := trace (waiting2 cfg_reject) @
          [Call (Fn 3) (Some (new_Error ''max slot queue length reached'')) NoValue]\<rparr>)"
proof -
  have s: "slotQ (waiting2 cfg_shift) = Some [Fn 1, Fn 2]"
    "maxQueueLength (config (waiting2 cfg_shift)) = Some 2"
    "queueShift (config (waiting2 cfg_shift)) \<noteq> Some False"
    unfolding waiting2_shift_eq by (simp_all add: cfg_shift_def cfg0_def)
  have r: "slotQ (waiting2 cfg_reject) = Some [Fn 1, Fn 2]"
    "maxQueueLength (config (waiting2 cfg_reject)) = Some 2"
    "queueShift (config (waiting2 cfg_reject)) = Some False"
    unfolding waiting2_reject_eq by (simp_all add: cfg_reject_def cfg0_def)
  show ?thesis
    using queue_overflow[OF s(1), of "Fn 3"] queue_overflow[OF r(1), of "Fn 3"] s r
    by simp
qed

theorem unbounded_queue_counterexample:
  "maxQueueLength (config waiting16) = None \<and> queueShift (config waiting16) = None \<and>
   slotQ waiting16 = Some queue16 \<and> length queue16 = 16 \<and>
   getSlots waiting16 (Some (Fn 17)) = (None, waiting16\<lparr>slotQ := Some (queue16 @ [Fn 17])\<rparr>) \<and>
   trace (snd (getSlots waiting16 (Some (Fn 17)))) = trace waiting16"
proof -
  have a: "maxQueueLength (config waiting16) = None" "queueShift (config waiting16) = None"
    "slotQ waiting16 = Some queue16"
    by (simp_all add: waiting16_eq cluster0_eq cfg0_def)
  have "\<not> queue_full waiting16 queue16" using a by (simp add: queue_full_def)
  from getSlots_enqueue[OF a(3) this, of "Fn 17"] a show ?thesis
    by (simp add: queue16_def)
qed

subsection \<open>Quitting\<close>

lemma quit_loop_null:
  "(n, None) \<in> set conns \<Longrightarrow>
   quit_loop conns c = (Some TypeError, c\<lparr>trace := trace c @ map (\<lambda>cid. ClientQuit cid True) (before_null conns)\<rparr>) \<and>
   length (before_null conns) < length conns"
proof (induction conns arbitrary: c)
  case Nil
  then show ?case by simp
next
  case (Cons p conns)
  obtain i v where p: "p = (i, v)" by (cases p)
  show ?case
  proof (cases v)
    case None
    with p show ?thesis by simp
  next
    case (Some cid)
    with p Cons.prems have "(n, None) \<in> set conns" by auto
    from Cons.IH[OF this, of "emit [ClientQuit cid True] c"] p Some show ?thesis
      by (simp add: emit_def)
  qed
qed

lemma quitCbs_silent:
  "int (length rs) < todo q \<Longrightarrow> fst (quitCbs q rs) = [] \<and> todo (snd (quitCbs q rs)) = todo q - int (length rs)"
proof (induction rs arbitrary: q)
  case Nil
  then show ?case by simp
next
  case (Cons r rs)
  obtain es q1 where s: "quitCb q r = (es, q1)" by (cases "quitCb q r")
  have t: "todo q1 = todo q - 1" and e: "es = []"
    using s Cons.prems by (auto simp: quitCb_def Let_def split: option.splits if_splits)
  have "int (length rs) < todo q1" using t Cons.prems by simp
  from Cons.IH[OF this] s t e show ?case by (simp add: split_beta)
qed

text \<open>
  C10.  \<^verbatim>\<open>quit(cb)\<close> sets its counter to the number of keys of the pool, tombstones
  included, and calls \<^verbatim>\<open>.quit(quitCb)\<close> on the value of each key in turn.  When some key is
  bound to \<^verbatim>\<open>null\<close> the call throws a TypeError at the first such key: the clients before it
  have been told to quit, \<^verbatim>\<open>cb\<close> has not been called, and since fewer clients were told to
  quit than the counter holds, their completions never bring it to zero, so \<^verbatim>\<open>cb\<close> is not
  called later either.
\<close>

theorem quit_with_tombstone:
  assumes "(n, None) \<in> set (connections c)"
  shows "todo (snd (quit c cb)) = int (length (connections c)) \<and>
         fst (quit c cb) =
           (Some TypeError,
            c\<lparr>quitting := True,
              trace := trace c @ ClearInterval # map (\<lambda>cid. ClientQuit cid True) (before_null (connections c))\<rparr>) \<and>
         filter is_CallQuit (trace (snd (fst (quit c cb)))) = filter is_CallQuit (trace c) \<and>
         length (before_null (connections c)) < length (connections c) \<and>
         (length rs \<le> length (before_null (connections c)) \<longrightarrow> fst (quitCbs (snd (quit c cb)) rs) = [])"
proof -
  note l = quit_loop_null[OF assms, of "c\<lparr>quitting := True, trace := trace c @ [ClearInterval]\<rparr>"]
  have a: "todo (snd (quit c cb)) = int (length (connections c))"
    by (simp add: quit_def Let_def)
  have b: "fst (quit c cb) =
           (Some TypeError,
            c\<lparr>quitting := True,
              trace := trace c @ ClearInterval # map (\<lambda>cid. ClientQuit cid True) (before_null (connections c))\<rparr>)"
    using l by (simp add: quit_def Let_def emit_def)
  have f: "filter is_CallQuit (map (\<lambda>cid. ClientQuit cid True) xs) = []" for xs
    by (induction xs) simp_all
  have d: "filter is_CallQuit (trace (snd (fst (quit c cb)))) = filter is_CallQuit (trace c)"
    unfolding b by (simp add: f)
  have e: "fst (quitCbs (snd (quit c cb)) rs) = []"
    if "length rs \<le> length (before_null (connections c))"
  proof -
    have "int (length rs) < todo (snd (quit c cb))" using that l a by simp
    from quitCbs_silent[OF this] show ?thesis by simp
  qed
  show ?thesis using a b d e l by blast
qed

theorem quit_with_tombstone_witness:
  "(''b:2'', None) \<in> set (connections cluster1) \<and>
   todo (snd (quit cluster1 (Some (Fn 9)))) = 2 \<and>
   fst (quit cluster1 (Some (Fn 9))) =
     (Some TypeError,
      cluster1\<lparr>quitting := True, trace := trace cluster1 @ [ClearInterval, ClientQuit 0 True]\<rparr>) \<and>
   fst (quitCbs (snd (quit cluster1 (Some (Fn 9)))) [None]) = []"
proof -
  have h: "(''b:2'', None) \<in> set (connections cluster1)" by (simp add: cluster1_eq)
  have c: "connections cluster1 = [(''a:1'', Some 0), (''b:2'', None)]" by (simp add: cluster1_eq)
  show ?thesis
    using h quit_with_tombstone[OF h, of "Some (Fn 9)" "[None]"] by (simp add: c)
qed

subsection \<open>Pruning the pool after a refresh\<close>

lemma map_of_assign: "map_of (assign k v xs) = (map_of xs)(k \<mapsto> v)"
  by (induction xs) (auto simp: fun_eq_iff)

lemma connection_tombstone:
  "connection (c\<lparr>trace := t, connections := assign i None (connections c)\<rparr>) n =
     (if n = i then None else connection c n)"
  by (simp add: connection_def map_of_assign)

lemma connection_trace [simp]: "connection (c\<lparr>trace := t\<rparr>) n = connection c n"
  by (simp add: connection_def)

lemma connection_slots [simp]: "connection (c\<lparr>slots := s\<rparr>) n = connection c n"
  by (simp add: connection_def)

lemma connection_refreshes [simp]: "connection (c\<lparr>refreshes := s\<rparr>) n = connection c n"
  by (simp add: connection_def)

lemma prune_connection:
  "connection (prune is seen c) n =
     (if n \<in> set is \<and> n \<notin> set seen then None else connection c n)"
proof (induction "is" arbitrary: c)
  case Nil
  then show ?case by simp
next
  case (Cons i "is")
  show ?case
    by (cases "connection c i") (auto simp: Cons.IH connection_tombstone)
qed

lemma prune_tombstone:
  "map_of (connections c) n \<noteq> None \<Longrightarrow> n \<in> set is \<Longrightarrow> n \<notin> set seen \<Longrightarrow>
   map_of (connections (prune is seen c)) n = Some None"
proof (induction "is" arbitrary: c)
  case Nil
  then show ?case by simp
next
  case (Cons i "is")
  define c1 where "c1 = (case connection c i of
          None \<Rightarrow> c
        | Some cid \<Rightarrow>
            if i \<in> set seen then c
            else c\<lparr>trace := trace c @ [ClientQuit cid False],
                   connections := assign i None (connections c)\<rparr>)"
  have p: "prune (i # is) seen c = prune is seen c1" by (simp add: c1_def)
  have dom: "map_of (connections c1) n \<noteq> None"
    using Cons.prems(1) by (auto simp: c1_def map_of_assign split: option.splits)
  have keep: "map_of (connections (prune is seen c1)) n = Some None"
    if "map_of (connections c1) n = Some None"
    using that
  proof (induction "is" arbitrary: c1)
    case Nil
    then show ?case by simp
  next
    case (Cons j js)
    show ?case
      by (cases "connection c1 j")
         (use Cons.prems in \<open>auto intro!: Cons.IH simp: map_of_assign\<close>)
  qed
  show ?case
  proof (cases "n \<in> set is")
    case True
    from Cons.IH[OF dom True Cons.prems(3)] p show ?thesis by simp
  next
    case False
    with Cons.prems(2) have ni: "n = i" by simp
    have "map_of (connections c1) n = Some None"
    proof (cases "connection c i")
      case None
      with Cons.prems(1) ni show ?thesis
        by (auto simp: c1_def connection_def split: option.splits)
    next
      case (Some cid)
      with Cons.prems(3) ni show ?thesis by (simp add: c1_def map_of_assign)
    qed
    from keep[OF this] p show ?thesis by simp
  qed
qed

lemma prune_trace:
  "\<exists>es. trace (prune is seen c) = trace c @ es \<and>
      (\<forall>n cid. n \<in> set is \<and> n \<notin> set seen \<and> connection c n = Some cid \<longrightarrow>
         ClientQuit cid False \<in> set es)"
proof (induction "is" arbitrary: c)
  case Nil
  then show ?case by simp
next
  case (Cons i "is")
  define c1 where "c1 = (case connection c i of
          None \<Rightarrow> c
        | Some cid \<Rightarrow>
            if i \<in> set seen then c
            else c\<lparr>trace := trace c @ [ClientQuit cid False],
                   connections := assign i None (connections c)\<rparr>)"
  have p: "prune (i # is) seen c = prune is seen c1" by (simp add: c1_def)
  from Cons.IH[of c1] obtain es where
    es: "trace (prune is seen c1) = trace c1 @ es"
        "\<forall>n cid. n \<in> set is \<and> n \<notin> set seen \<and> connection c1 n = Some cid \<longrightarrow>
           ClientQuit cid False \<in> set es"
    by blast
  have t1: "trace c1 = trace c @ (case connection c i of None \<Rightarrow> [] | Some cid \<Rightarrow>
              if i \<in> set seen then [] else [ClientQuit cid False])"
    by (simp add: c1_def split: option.splits)
  have other: "connection c1 n = connection c n" if "n \<noteq> i" for n
    using that by (auto simp: c1_def connection_tombstone split: option.splits)
  let ?e1 = "(case connection c i of None \<Rightarrow> [] | Some cid \<Rightarrow>
              if i \<in> set seen then [] else [ClientQuit cid False])"
  have "ClientQuit cid False \<in> set (?e1 @ es)"
    if "n \<in> set (i # is)" "n \<notin> set seen" "connection c n = Some cid" for n cid
  proof (cases "n = i")
    case True
    with that show ?thesis by simp
  next
    case False
    with that other[OF False] es(2) show ?thesis by auto
  qed
  then have q: "\<forall>n cid. n \<in> set (i # is) \<and> n \<notin> set seen \<and> connection c n = Some cid \<longrightarrow>
         ClientQuit cid False \<in> set (?e1 @ es)"
    by blast
  have tr: "trace (prune (i # is) seen c) = trace c @ (?e1 @ es)"
    using p es(1) t1 by simp
  show ?case using tr q by blast
qed

lemma getClient_connection:
  "n \<noteq> endpoint host port \<Longrightarrow> connection (fst (getClient c port host)) n = connection c n"
  by (auto simp: getClient_def Let_def connection_def map_of_assign split: option.splits)

lemma getClient_dom:
  "map_of (connections c) n \<noteq> None \<Longrightarrow> map_of (connections (fst (getClient c port host))) n \<noteq> None"
  by (auto simp: getClient_def Let_def map_of_assign split: option.splits)

lemma getClients_props:
  "getClients c nodes seen = (c1, cids, seen1) \<Longrightarrow>
   seen1 = seen @ map (\<lambda>(host, port). host @ '':'' @ port) nodes \<and>
   (\<forall>n. n \<notin> set (map (\<lambda>(host, port). host @ '':'' @ port) nodes) \<longrightarrow> connection c1 n = connection c n) \<and>
   (\<forall>n. map_of (connections c) n \<noteq> None \<longrightarrow> map_of (connections c1) n \<noteq> None) \<and>
   (\<exists>es. trace c1 = trace c @ es)"
proof (induction nodes arbitrary: c seen c1 cids seen1)
  case Nil
  then show ?case by simp
next
  case (Cons nd nodes)
  obtain host port where nd: "nd = (host, port)" by (cases nd)
  obtain ca cid where g: "getClient c (Some port) host = (ca, cid)"
    by (cases "getClient c (Some port) host")
  obtain cb cids' seen' where r: "getClients ca nodes (seen @ [host @ '':'' @ port]) = (cb, cids', seen')"
    by (cases "getClients ca nodes (seen @ [host @ '':'' @ port])") auto
  from Cons.prems nd g r have eq: "c1 = cb" "seen1 = seen'" by simp_all
  note ih = Cons.IH[OF r]
  have ca: "ca = fst (getClient c (Some port) host)" using g by simp
  have k1: "connection ca n = connection c n" if "n \<noteq> host @ '':'' @ port" for n
    unfolding ca using that getClient_connection[of n host "Some port" c] by (simp add: endpoint_def)
  have k2: "map_of (connections ca) n \<noteq> None" if "map_of (connections c) n \<noteq> None" for n
    unfolding ca using that by (rule getClient_dom)
  have k3: "\<exists>es. trace ca = trace c @ es"
    unfolding ca by (simp add: getClient_def Let_def split: option.splits)
  show ?case using ih k1 k2 k3 eq nd by auto
qed

lemma load_ranges_props:
  "load_ranges c ranges seen = (c1, seen1) \<Longrightarrow>
   seen1 = seen @ referenced ranges \<and>
   (\<forall>n. n \<notin> set (referenced ranges) \<longrightarrow> connection c1 n = connection c n) \<and>
   (\<forall>n. map_of (connections c) n \<noteq> None \<longrightarrow> map_of (connections c1) n \<noteq> None) \<and>
   (\<exists>es. trace c1 = trace c @ es)"
proof (induction ranges arbitrary: c seen c1 seen1)
  case Nil
  then show ?case by simp
next
  case (Cons rg ranges)
  obtain start "end" nodes where rg: "rg = (start, end, nodes)" by (cases rg)
  obtain ca cids seena where g: "getClients c nodes seen = (ca, cids, seena)"
    by (cases "getClients c nodes seen") auto
  note gp = getClients_props[OF g]
  from Cons.prems rg g
  have r: "load_ranges (ca\<lparr>slots := fill_range (slots ca) start end cids\<rparr>) ranges seena = (c1, seen1)"
    by simp
  note ih = Cons.IH[OF r]
  show ?case using ih gp rg by auto
qed

lemma keeps_pool_refl [simp]: "keeps_pool c c"
  by (simp add: keeps_pool_def)

lemma keeps_pool_trans: "keeps_pool a b \<Longrightarrow> keeps_pool b c \<Longrightarrow> keeps_pool a c"
  by (auto simp: keeps_pool_def)

lemma keeps_pool_simple [simp]:
  "keeps_pool c (c\<lparr>trace := trace c @ es\<rparr>)"
  "keeps_pool c (emit es c)"
  "keeps_pool c (c\<lparr>slotQ := q\<rparr>)"
  "keeps_pool c (c\<lparr>refreshes := rs\<rparr>)"
  "keeps_pool c (c\<lparr>clients := cl\<rparr>)"
  by (simp_all add: keeps_pool_def emit_def)

lemma getRandomConnection_keeps: "keeps_pool c (snd (getRandomConnection c ex))"
  by (simp add: keeps_pool_def)

lemma runCbs_error_keeps: "keeps_pool c (snd (runCbs_error c e))"
  by (simp add: runCbs_error_def keeps_pool_def split: option.splits)

lemma tryClient_keeps: "keeps_pool c (snd (tryClient c r))"
proof -
  define c0 where "c0 = (if timer r then emit [ClearTimeout] c else c)"
  obtain x c1 where g: "getRandomConnection c0 (Some (exclude r)) = (x, c1)"
    by (cases "getRandomConnection c0 (Some (exclude r))")
  have k0: "keeps_pool c c0" by (simp add: c0_def)
  have k1: "keeps_pool c0 c1" using getRandomConnection_keeps[of c0 "Some (exclude r)"] g by simp
  note k = keeps_pool_trans[OF k0 k1]
  have a: "keeps_pool c (snd (runCbs_error c0 e))" for e
    by (rule keeps_pool_trans[OF k0 runCbs_error_keeps])
  have b: "keeps_pool c (snd (runCbs_error c1 e))" for e
    by (rule keeps_pool_trans[OF k runCbs_error_keeps])
  have d: "keeps_pool c (c1\<lparr>trace := trace c1 @ es, refreshes := rs\<rparr>)" for es rs
    using k by (auto simp: keeps_pool_def)
  show ?thesis using g a b d
    by (cases x) (simp_all add: tryClient_def c0_def[symmetric] Let_def)
qed

lemma getSlots_start_keeps: "keeps_pool c (snd (getSlots_start b c))"
  using tryClient_keeps[of c]
  by (auto simp: getSlots_start_def Let_def keeps_pool_def split: option.splits)

lemma getSlots_keeps: "keeps_pool c (snd (getSlots c cb))"
proof -
  have a: "keeps_pool c (snd (getSlots_start b c1))" if "keeps_pool c c1" for b c1
    by (rule keeps_pool_trans[OF that getSlots_start_keeps])
  have b: "keeps_pool c (c\<lparr>slotQ := q\<rparr>)" "keeps_pool c (c\<lparr>slotQ := q, slotQ := q', trace := trace c @ es\<rparr>)"
          "keeps_pool c (c\<lparr>slotQ := q, slotQ := q'\<rparr>)" "keeps_pool c (c\<lparr>slotQ := q, trace := trace c @ es\<rparr>)"
    for q q' es
    by (simp_all add: keeps_pool_def)
  show ?thesis
    by (auto simp: getSlots_def Let_def intro!: a b split: option.splits list.splits)
qed

lemma select_index_keeps: "keeps_pool c (snd (select_index c cf n))"
  by (simp add: select_index_def keeps_pool_def Let_def split_beta)

lemma select_slot_keeps: "keeps_pool c (snd (select_slot c slot cf))"
proof -
  have a: "trace c1 = trace c \<and> connections c1 = connections c"
    if "select_index c cf n = (i, c1)" for n i c1
    using that
    by (auto simp: select_index_def Let_def split_beta random_index_def split: if_splits list.splits)
  have b: "keeps_pool c (snd (getRandomConnection c None))" by (rule getRandomConnection_keeps)
  show ?thesis using b
    by (auto simp: select_slot_def Let_def set_readOnly_def emit_def keeps_pool_def
             split: option.splits prod.splits dest!: a)
qed

lemma selectClient_keeps: "selectClient c key cf = Inr (r, c1) \<Longrightarrow> keeps_pool c c1"
  using select_slot_keeps[of c _ cf]
  by (auto simp: selectClient_def Let_def split: jsval.splits list.splits) (metis snd_conv)+

lemma doCommand_keeps: "keeps_pool c (fst (snd (doCommand c cmd cf args)))"
proof (cases "\<not> truthy (first_arg args)")
  case True
  then show ?thesis by (simp add: doCommand_def Let_def)
next
  case False
  show ?thesis
  proof (cases "slots c = []")
    case True
    with False getSlots_keeps[of c "Some (SlotsCb cmd cf args)"] show ?thesis
      by (simp add: doCommand_def Let_def split_beta)
  next
    case ne: False
    show ?thesis
    proof (cases "selectClient c (first_arg args) cf")
      case (Inl x)
      with False ne show ?thesis by (simp add: doCommand_def Let_def)
    next
      case (Inr p)
      obtain r c1 where p: "p = (r, c1)" by (cases p)
      have k: "keeps_pool c c1" using selectClient_keeps[OF Inr[unfolded p]] .
      have "keeps_pool c (emit es c1)" for es
        by (rule keeps_pool_trans[OF k]) simp
      with False ne Inr p show ?thesis
        by (cases r) (simp_all add: doCommand_def Let_def)
    qed
  qed
qed

lemma apply_cb_keeps: "keeps_pool c (snd (apply_cb c cb err res))"
proof -
  have a: "keeps_pool c (emit [Call cb err res] c)" by simp
  have b: "keeps_pool c (fst (snd (doCommand (emit [Call cb err res] c) cmd cf args)))" for cmd cf args
    by (rule keeps_pool_trans[OF a doCommand_keeps])
  show ?thesis using a b
    by (auto simp: apply_cb_def slotsCb_def Let_def split: callback.splits option.splits prod.splits)
       (metis fst_conv snd_conv)+
qed

lemma runCbs_keeps:
  assumes "runCbs c err res = Some y"
  shows "keeps_pool c (snd y)"
proof (rule runCbs.raw_induct[where P="\<lambda>c err res y. keeps_pool c (snd y)", OF _ assms], goal_cases)
  case (1 f c err res y)
  show ?case
  proof (cases "slotQ c")
    case None
    with 1(2) show ?thesis by auto
  next
    case (Some q)
    show ?thesis
    proof (cases q)
      case Nil
      with Some 1(2) show ?thesis by auto
    next
      case (Cons cb rest)
      obtain x c1 where a: "apply_cb (c\<lparr>slotQ := Some rest\<rparr>) cb err res = (x, c1)"
        by (cases "apply_cb (c\<lparr>slotQ := Some rest\<rparr>) cb err res")
      have k: "keeps_pool c c1"
        using keeps_pool_trans[OF _ apply_cb_keeps[of "c\<lparr>slotQ := Some rest\<rparr>" cb err res]] a
        by simp
      show ?thesis
      proof (cases x)
        case None
        with Some Cons a 1(2) have "f c1 err res = Some y" by simp
        from 1(1)[OF this] k show ?thesis by (rule keeps_pool_trans[rotated])
      next
        case (Some e)
        with \<open>slotQ c = Some q\<close> Cons a 1(2) have "y = (x, c1)" by simp
        with k show ?thesis by simp
      qed
    qed
  qed
qed

lemma map_of_key: "map_of xs n \<noteq> None \<Longrightarrow> n \<in> set (map fst xs)"
  by (induction xs) (auto split: if_splits)

lemma rebuild_prunes:
  "(connection (rebuild c ranges) n = Some cid \<longrightarrow> n \<in> set (referenced ranges)) \<and>
   (connection c n = Some cid \<and> n \<notin> set (referenced ranges) \<longrightarrow>
      ClientQuit cid False \<in> set (drop (length (trace c)) (trace (rebuild c ranges))) \<and>
      map_of (connections (rebuild c ranges)) n = Some None) \<and>
   (map_of (connections c) n = Some None \<and> n \<notin> set (referenced ranges) \<longrightarrow>
      map_of (connections (rebuild c ranges)) n = Some None) \<and>
   (\<exists>es. trace (rebuild c ranges) = trace c @ es)"
proof -
  define c0 where "c0 = c\<lparr>slots := []\<rparr>"
  obtain c1 seen where l: "load_ranges c0 ranges [] = (c1, seen)"
    by (cases "load_ranges c0 ranges []")
  define c2 where "c2 = prune (map fst (connections c1)) seen c1"
  have c2: "rebuild c ranges = c2"
    using l by (simp add: rebuild_def c0_def c2_def)
  note lp = load_ranges_props[OF l]
  have seen: "seen = referenced ranges" using lp by simp
  have c0c: "connection c0 m = connection c m" "map_of (connections c0) m = map_of (connections c) m"
    "trace c0 = trace c" for m
    by (simp_all add: c0_def connection_def)
  have keep: "connection c1 m = connection c m" if "m \<notin> set (referenced ranges)" for m
    using lp that c0c by simp
  have dom: "map_of (connections c1) m \<noteq> None" if "map_of (connections c) m \<noteq> None" for m
    using lp that c0c by simp
  obtain es1 where es1: "trace c1 = trace c @ es1" using lp c0c by auto
  from prune_trace[of "map fst (connections c1)" seen c1] obtain es2 where
    es2: "trace c2 = trace c1 @ es2"
      "\<forall>m k. m \<in> set (map fst (connections c1)) \<and> m \<notin> set seen \<and> connection c1 m = Some k \<longrightarrow>
         ClientQuit k False \<in> set es2"
    unfolding c2_def by blast
  have new: "drop (length (trace c)) (trace c2) = es1 @ es2"
    using es1 es2(1) by simp
  have a: "n \<in> set (referenced ranges)" if "connection c2 n = Some cid"
  proof -
    from that have q: "\<not> (n \<in> set (map fst (connections c1)) \<and> n \<notin> set seen)" "connection c1 n = Some cid"
      unfolding c2_def prune_connection by (auto split: if_splits)
    from q(2) have "map_of (connections c1) n \<noteq> None"
      by (auto simp: connection_def split: option.splits)
    then have "n \<in> set (map fst (connections c1))" by (rule map_of_key)
    with q(1) seen show ?thesis by simp
  qed
  have b: "ClientQuit cid False \<in> set (drop (length (trace c)) (trace c2)) \<and>
            map_of (connections c2) n = Some None"
    if "connection c n = Some cid" "n \<notin> set (referenced ranges)"
  proof -
    have l1: "connection c1 n = Some cid" using keep[OF that(2)] that(1) by simp
    then have d1: "map_of (connections c1) n \<noteq> None"
      by (auto simp: connection_def split: option.splits)
    then have k: "n \<in> set (map fst (connections c1))" by (rule map_of_key)
    have "ClientQuit cid False \<in> set es2" using es2(2) k l1 that(2) seen by blast
    moreover have "map_of (connections c2) n = Some None"
      unfolding c2_def using prune_tombstone[OF d1 k] that(2) seen by simp
    ultimately show ?thesis using new by simp
  qed
  have d: "map_of (connections c2) n = Some None"
    if "map_of (connections c) n = Some None" "n \<notin> set (referenced ranges)"
  proof -
    have d1: "map_of (connections c1) n \<noteq> None" using dom that(1) by simp
    then have k: "n \<in> set (map fst (connections c1))" by (rule map_of_key)
    show ?thesis
      unfolding c2_def using prune_tombstone[OF d1 k] that(2) seen by simp
  qed
  have e: "\<exists>es. trace c2 = trace c @ es" using es1 es2(1) by simp
  show ?thesis unfolding c2 using a b d e by blast
qed

text \<open>
  C8.  When the reply to the enumeration command is a success, the handler leaves no live
  client in the pool under an endpoint that no range of the reply names: each such client
  that was live when the reply arrived has been sent \<^verbatim>\<open>quit\<close> by this handler and its key is
  bound to \<^verbatim>\<open>null\<close>; a key that was \<^verbatim>\<open>null\<close> already stays so.  This holds of the state
  in which the handler starts to call the queued callbacks (lines 160-186 are done), and of
  the state in which it returns, with or without an exception.
\<close>

theorem refresh_prunes_pool:
  assumes "i < length (refreshes c)" "phase (refreshes c ! i) = AwaitReply cid0"
    and "c' = rebuild (c\<lparr>refreshes := remove_nth i (refreshes c)\<rparr>) ranges \<or>
         slotsReply c i None ranges = Some (x, c')"
  shows "(connection c' n = Some cid \<longrightarrow> n \<in> set (referenced ranges)) \<and>
         (connection c n = Some cid \<and> n \<notin> set (referenced ranges) \<longrightarrow>
            ClientQuit cid False \<in> set (drop (length (trace c)) (trace c')) \<and>
            map_of (connections c') n = Some None) \<and>
         (map_of (connections c) n = Some None \<and> n \<notin> set (referenced ranges) \<longrightarrow>
            map_of (connections c') n = Some None)"
proof -
  define c0 where "c0 = c\<lparr>refreshes := remove_nth i (refreshes c)\<rparr>"
  define c2 where "c2 = rebuild c0 ranges"
  have c0c: "connection c0 m = connection c m" "connections c0 = connections c" "trace c0 = trace c" for m
    by (simp_all add: c0_def connection_def)
  note rp = rebuild_prunes[of c0 ranges n cid, folded c2_def, unfolded c0c]
  from rp obtain es2 where es2: "trace c2 = trace c @ es2" by blast
  have k: "keeps_pool c2 c'"
  proof (cases "c' = c2")
    case True
    then show ?thesis by simp
  next
    case False
    with assms(3) have "slotsReply c i None ranges = Some (x, c')"
      by (simp add: c0_def c2_def)
    with assms(1,2) have "runCbs c2 None (SlotMap (slots c2)) = Some (x, c')"
      by (simp add: slotsReply_def Let_def c0_def c2_def)
    from runCbs_keeps[OF this] show ?thesis by simp
  qed
  then obtain es3 where es3: "connections c' = connections c2" "trace c' = trace c2 @ es3"
    by (auto simp: keeps_pool_def)
  have con': "connection c' m = connection c2 m" for m
    using es3(1) by (simp add: connection_def)
  have new: "set (drop (length (trace c)) (trace c2)) \<subseteq> set (drop (length (trace c)) (trace c'))"
    using es2 es3(2) by simp
  show ?thesis using rp con' es3(1) new by auto
qed

lemma slotsReply_cluster_ready:
  "slotsReply cluster_ready 0 None [(0, 1, [(''a'', ''1'')])] = Some (None, cluster1)"
  by (simp add: cluster1_eq cluster_ready_eq eval_defs upt_rec)

theorem refresh_prunes_pool_witness:
  "0 < length (refreshes cluster_ready) \<and> phase (refreshes cluster_ready ! 0) = AwaitReply 0 \<and>
   slotsReply cluster_ready 0 None [(0, 1, [(''a'', ''1'')])] = Some (None, cluster1) \<and>
   connection cluster_ready ''b:2'' = Some 1 \<and>
   ''b:2'' \<notin> set (referenced [(0, 1, [(''a'', ''1'')])]) \<and>
   ClientQuit 1 False \<in> set (drop (length (trace cluster_ready)) (trace cluster1)) \<and>
   map_of (connections cluster1) ''b:2'' = Some None \<and>
   connection cluster1 ''a:1'' = Some 0 \<and>
   ''a:1'' \<in> set (referenced [(0, 1, [(''a'', ''1'')])])"
proof -
  have h: "0 < length (refreshes cluster_ready)" "phase (refreshes cluster_ready ! 0) = AwaitReply 0"
    by (simp_all add: cluster_ready_eq)
  have r: "cluster1 = rebuild (cluster_ready\<lparr>refreshes := remove_nth 0 (refreshes cluster_ready)\<rparr>)
              [(0, 1, [(''a'', ''1'')])] \<or>
           slotsReply cluster_ready 0 None [(0, 1, [(''a'', ''1'')])] = Some (None, cluster1)"
    using slotsReply_cluster_ready by simp
  have b: "connection cluster_ready ''b:2'' = Some 1" "''b:2'' \<notin> set (referenced [(0, 1, [(''a'', ''1'')])])"
    by (simp_all add: cluster_ready_eq connection_def)
  have a: "connection cluster1 ''a:1'' = Some 0"
    by (simp add: cluster1_eq connection_def)
  show ?thesis
    using refresh_prunes_pool[OF h r, of "''b:2''" 1]
          refresh_prunes_pool[OF h r, of "''a:1''" 0]
          h b a slotsReply_cluster_ready
    by blast
qed

subsection \<open>Commands after quit\<close>

lemma slotQ_None_same: "slotQ c = None \<Longrightarrow> c\<lparr>slotQ := None\<rparr> = c"
  by (cases c) simp

lemma doCommand_quitting_empty:
  assumes "quitting c" "truthy (first_arg args)" "slots c = []" "slotQ c = None"
  shows "doCommand c cmd cf args =
           (None,
            c\<lparr>trace := trace c @
              [Call (SlotsCb cmd cf args) (Some (new_Error ''cluster is quitting'')) NoValue]\<rparr>,
            None)"
proof -
  have "c\<lparr>trace := trace c @
              [Call (SlotsCb cmd cf args) (Some (new_Error ''cluster is quitting'')) NoValue],
           slotQ := None\<rparr> =
        c\<lparr>trace := trace c @
              [Call (SlotsCb cmd cf args) (Some (new_Error ''cluster is quitting'')) NoValue]\<rparr>"
    using assms(4) by (cases c) simp
  then show ?thesis using assms
    by (auto simp: doCommand_def getSlots_def getSlots_start_def tryClient_def runCbs_error_def
          queue_full_def Let_def split: option.splits)
qed

lemma random_index_quitting:
  "random_index (c\<lparr>quitting := b\<rparr>) n =
     (fst (random_index c n), (snd (random_index c n))\<lparr>quitting := b\<rparr>)"
  by (simp add: random_index_def split: list.splits)

lemma connection_quitting [simp]: "connection (c\<lparr>quitting := b\<rparr>) n = connection c n"
  by (simp add: connection_def)

lemma connection_rands [simp]: "connection (c\<lparr>rands := b\<rparr>) n = connection c n"
  by (simp add: connection_def)

lemma client_ready_quitting [simp]: "client_ready (c\<lparr>quitting := b\<rparr>) n = client_ready c n"
  by (simp add: client_ready_def client_of_def)

lemma available_quitting [simp]: "available (c\<lparr>quitting := b\<rparr>) ex = available c ex"
  by (simp add: available_def cong: option.case_cong)

lemma getRandomConnection_quitting:
  "getRandomConnection (c\<lparr>quitting := b\<rparr>) ex =
     (fst (getRandomConnection c ex), (snd (getRandomConnection c ex))\<lparr>quitting := b\<rparr>)"
  by (simp add: getRandomConnection_def Let_def random_index_quitting split_beta)

lemma select_index_quitting:
  "select_index (c\<lparr>quitting := b\<rparr>) cf n =
     (fst (select_index c cf n), (snd (select_index c cf n))\<lparr>quitting := b\<rparr>)"
  by (simp add: select_index_def Let_def random_index_quitting split_beta)

lemma select_slot_quitting:
  "select_slot (c\<lparr>quitting := b\<rparr>) slot cf =
     (fst (select_slot c slot cf), (snd (select_slot c slot cf))\<lparr>quitting := b\<rparr>)"
  by (simp add: select_slot_def Let_def select_index_quitting getRandomConnection_quitting
        split_beta client_of_def set_readOnly_def emit_def split: option.splits)

lemma selectClient_quitting:
  "selectClient (c\<lparr>quitting := b\<rparr>) key cf =
     map_sum id (\<lambda>(r, c1). (r, c1\<lparr>quitting := b\<rparr>)) (selectClient c key cf)"
  by (simp add: selectClient_def Let_def select_slot_quitting split_beta
           split: jsval.splits list.splits)

lemma doCommand_ignores_quitting:
  assumes "slots c \<noteq> []"
  shows "doCommand (c\<lparr>quitting := b\<rparr>) cmd cf args =
           (fst (doCommand c cmd cf args),
            (fst (snd (doCommand c cmd cf args)))\<lparr>quitting := b\<rparr>,
            snd (snd (doCommand c cmd cf args)))"
  using assms
  by (cases "selectClient c (first_arg args) cf")
     (auto simp: doCommand_def Let_def selectClient_quitting emit_def split: option.splits)

lemma quit_loop_fields:
  "quitting (snd (quit_loop conns c)) = quitting c \<and> slots (snd (quit_loop conns c)) = slots c \<and>
   slotQ (snd (quit_loop conns c)) = slotQ c"
proof (induction conns arbitrary: c)
  case Nil
  then show ?case by simp
next
  case (Cons p conns)
  obtain i v where p: "p = (i, v)" by (cases p)
  show ?case using Cons.IH[of "emit [ClientQuit (the v) True] c"] p
    by (cases v) (simp_all add: emit_def)
qed

lemma quit_fields:
  "quitting (snd (fst (quit c cb))) \<and> slots (snd (fst (quit c cb))) = slots c \<and>
   slotQ (snd (fst (quit c cb))) = slotQ c"
  using quit_loop_fields[of "connections c" "emit [ClearInterval] (c\<lparr>quitting := True\<rparr>)"]
  by (simp add: quit_def Let_def emit_def)

lemma quitting_same: "quitting c \<Longrightarrow> c\<lparr>quitting := True\<rparr> = c"
  by (cases c) simp

text \<open>
  C6 (as amended).  \<^verbatim>\<open>doCommand\<close> does not read the \<^verbatim>\<open>quitting\<close> flag.  After \<^verbatim>\<open>quit\<close>, a
  command with a key fails only through \<^verbatim>\<open>getSlots\<close>: when the slot map is empty and no
  refresh is running, the closure handed to \<^verbatim>\<open>getSlots\<close> is called with
  \<^verbatim>\<open>cluster is quitting\<close> and passes that error to the command's callback, and nothing is
  sent to a node.  When the slot map is not empty the command is handled exactly as if
  \<^verbatim>\<open>quit\<close> had not set the flag: it is dispatched to the selected node client.
\<close>

theorem command_after_quit:
  assumes "truthy (first_arg args)"
  shows "(slots c = [] \<and> slotQ c = None \<longrightarrow>
            doCommand (snd (fst (quit c cb))) cmd cf args =
              (None,
               (snd (fst (quit c cb)))\<lparr>trace := trace (snd (fst (quit c cb))) @
                  [Call (SlotsCb cmd cf args) (Some (new_Error ''cluster is quitting'')) NoValue]\<rparr>,
               None)) \<and>
         slotsCb c1 cmd cf args (Some (new_Error ''cluster is quitting'')) =
           (None,
            c1\<lparr>trace := trace c1 @
               [Call (callback_of args) (Some (new_Error ''cluster is quitting'')) NoValue]\<rparr>,
            None) \<and>
         (slots c \<noteq> [] \<longrightarrow>
            doCommand (snd (fst (quit c cb))) cmd cf args =
              (fst (doCommand ((snd (fst (quit c cb)))\<lparr>quitting := False\<rparr>) cmd cf args),
               (fst (snd (doCommand ((snd (fst (quit c cb)))\<lparr>quitting := False\<rparr>) cmd cf args)))
                 \<lparr>quitting := True\<rparr>,
               snd (snd (doCommand ((snd (fst (quit c cb)))\<lparr>quitting := False\<rparr>) cmd cf args))))"
proof -
  define cq where "cq = snd (fst (quit c cb))"
  note qf = quit_fields[of c cb, folded cq_def]
  have a: "doCommand cq cmd cf args =
              (None,
               cq\<lparr>trace := trace cq @
                  [Call (SlotsCb cmd cf args) (Some (new_Error ''cluster is quitting'')) NoValue]\<rparr>,
               None)"
    if "slots c = []" "slotQ c = None"
    by (rule doCommand_quitting_empty) (use qf that assms in simp_all)
  have b: "slotsCb c1 cmd cf args (Some (new_Error ''cluster is quitting'')) =
           (None,
            c1\<lparr>trace := trace c1 @
               [Call (callback_of args) (Some (new_Error ''cluster is quitting'')) NoValue]\<rparr>,
            None)"
    by (simp add: slotsCb_def emit_def)
  have d: "doCommand cq cmd cf args =
              (fst (doCommand (cq\<lparr>quitting := False\<rparr>) cmd cf args),
               (fst (snd (doCommand (cq\<lparr>quitting := False\<rparr>) cmd cf args)))\<lparr>quitting := True\<rparr>,
               snd (snd (doCommand (cq\<lparr>quitting := False\<rparr>) cmd cf args)))"
    if "slots c \<noteq> []"
  proof -
    have s: "slots (cq\<lparr>quitting := False\<rparr>) \<noteq> []" using qf that by simp
    have e: "(cq\<lparr>quitting := False\<rparr>)\<lparr>quitting := True\<rparr> = cq"
      using quitting_same[of cq] qf by simp
    from doCommand_ignores_quitting[OF s, of True cmd cf args] e show ?thesis by simp
  qed
  show ?thesis using a b d unfolding cq_def by blast
qed

lemma cluster2_eq:
  "cluster2 =
     \<lparr>config = cfg0, slots = [Some [0, 1], Some [0, 1]],
      connections = [(''a:1'', Some 0), (''b:2'', Some 1)],
      ready = True, quitting = False, ended = False, slotQ = None,
      clients = [client_a True, client_b],
      refreshes = [], rands = [],
      trace = [CreateClient (Some ''1'') ''a'', CreateClient (Some ''2'') ''b'',
               Emit ''ready'' None, SendCommand 0 ''cluster'' [''slots'']]\<rparr>"
  by (simp add: cluster2_def cluster_ready_eq eval_defs upt_rec)

lemma failed1_eq:
  "failed1 =
     \<lparr>config = cfg0, slots = [],
      connections = [(''a:1'', Some 0), (''b:2'', Some 1)],
      ready = True, quitting = False, ended = False, slotQ = None,
      clients = [client_a True, client_b],
      refreshes = [], rands = [],
      trace = [CreateClient (Some ''1'') ''a'', CreateClient (Some ''2'') ''b'',
               Emit ''ready'' None, SendCommand 0 ''cluster'' [''slots'']]\<rparr>"
  by (simp add: failed1_def cluster_ready_eq eval_defs client_a_def client_b_def)

lemma quit2_eq:
  "quit2 = cluster2\<lparr>quitting := True,
             trace := trace cluster2 @ [ClearInterval, ClientQuit 0 True, ClientQuit 1 True]\<rparr>"
  by (simp add: quit2_def quit_def cluster2_eq emit_def Let_def)

lemma quit_failed_eq:
  "quit_failed = failed1\<lparr>quitting := True,
             trace := trace failed1 @ [ClearInterval, ClientQuit 0 True, ClientQuit 1 True]\<rparr>"
  by (simp add: quit_failed_def quit_def failed1_eq emit_def Let_def)

theorem command_after_quit_witness:
  "truthy (first_arg [Str ''la2'', Func 1]) \<and> slots failed1 = [] \<and> slotQ failed1 = None \<and>
   doCommand quit_failed ''get'' \<lparr>conf_readOnly = False\<rparr> [Str ''la2'', Func 1] =
     (None,
      quit_failed\<lparr>trace := trace quit_failed @
         [Call (SlotsCb ''get'' \<lparr>conf_readOnly = False\<rparr> [Str ''la2'', Func 1])
            (Some (new_Error ''cluster is quitting'')) NoValue]\<rparr>,
      None) \<and>
   slotsCb quit_failed ''get'' \<lparr>conf_readOnly = False\<rparr> [Str ''la2'', Func 1]
       (Some (new_Error ''cluster is quitting'')) =
     (None,
      quit_failed\<lparr>trace := trace quit_failed @
         [Call (Fn 1) (Some (new_Error ''cluster is quitting'')) NoValue]\<rparr>,
      None)"
proof -
  have t: "truthy (first_arg [Str ''la2'', Func 1])" by (simp add: first_arg_def)
  have s: "slots failed1 = []" "slotQ failed1 = None" by (simp_all add: failed1_eq)
  show ?thesis
    using command_after_quit[OF t, of failed1 "Some (Fn 9)" "''get''" "\<lparr>conf_readOnly = False\<rparr>" quit_failed]
          t s
    by (simp add: quit_failed_def[symmetric] callback_of_def)
qed

theorem command_after_quit_counterexample:
  "fst (quit cluster2 (Some (Fn 9))) = (None, quit2) \<and> quitting quit2 \<and>
   doCommand quit2 ''get'' \<lparr>conf_readOnly = False\<rparr> [Str ''la2'', Func 1] =
     (None, quit2\<lparr>trace := trace quit2 @ [Invoke 0 ''get'' [Str ''la2'']]\<rparr>, Some command0) \<and>
   calls (trace (fst (snd (doCommand quit2 ''get'' \<lparr>conf_readOnly = False\<rparr> [Str ''la2'', Func 1])))) = []"
proof -
  have a: "fst (quit cluster2 (Some (Fn 9))) = (None, quit2)"
    by (simp add: quit2_eq quit_def cluster2_eq emit_def Let_def)
  have b: "quitting quit2" by (simp add: quit2_eq)
  have d: "doCommand quit2 ''get'' \<lparr>conf_readOnly = False\<rparr> [Str ''la2'', Func 1] =
     (None, quit2\<lparr>trace := trace quit2 @ [Invoke 0 ''get'' [Str ''la2'']]\<rparr>, Some command0)"
    by (simp add: doCommand_def first_arg_def callback_of_def argsCb_def selectClient_def slot_la2
        select_slot_def select_index_def quit2_eq cluster2_eq client_of_def emit_def command0_def
        commandCallback_def client_a_def Let_def)
  have e: "calls (trace (fst (snd (doCommand quit2 ''get'' \<lparr>conf_readOnly = False\<rparr> [Str ''la2'', Func 1])))) = []"
    unfolding d by (simp add: quit2_eq cluster2_eq calls_def)
  show ?thesis using a b d e by blast
qed

subsection \<open>The loop of \<^verbatim>\<open>runCbs\<close>\<close>

text \<open>
  Called with an error, or on a queue that holds no closure of \<^verbatim>\<open>doCommand\<close>, the loop calls
  every queued callback with the same arguments, in order, and resets the queue; so
  \<open>runCbs_error\<close> is what the loop computes for \<^verbatim>\<open>runCbs(err)\<close>.
\<close>

lemma apply_cb_plain:
  "\<not> is_SlotsCb cb \<or> err \<noteq> None \<Longrightarrow> apply_cb c cb err res = (None, emit [Call cb err res] c)"
  by (cases cb; cases err) (simp_all add: apply_cb_def Let_def)

lemma runCbs_plain:
  assumes "slotQ c = Some q" "err \<noteq> None \<or> (\<forall>cb \<in> set q. \<not> is_SlotsCb cb)"
  shows "runCbs c err res =
           Some (None, c\<lparr>trace := trace c @ map (\<lambda>cb. Call cb err res) q, slotQ := None\<rparr>)"
  using assms
proof (induction q arbitrary: c)
  case Nil
  then show ?case by (simp add: runCbs_Nil)
next
  case (Cons cb q)
  define c1 where "c1 = emit [Call cb err res] (c\<lparr>slotQ := Some q\<rparr>)"
  have a: "apply_cb (c\<lparr>slotQ := Some q\<rparr>) cb err res = (None, c1)"
    unfolding c1_def using Cons.prems(2) by (intro apply_cb_plain) auto
  have q1: "slotQ c1 = Some q" by (simp add: c1_def emit_def)
  have "runCbs c1 err res =
          Some (None, c1\<lparr>trace := trace c1 @ map (\<lambda>cb. Call cb err res) q, slotQ := None\<rparr>)"
    using Cons.IH[OF q1] Cons.prems(2) by auto
  then show ?case using Cons.prems(1) a
    by (simp add: runCbs_Cons c1_def emit_def)
qed

lemma runCbs_with_error: "runCbs c (Some e) NoValue = Some (runCbs_error c e)"
proof (cases "slotQ c")
  case None
  then show ?thesis by (simp add: runCbs_None runCbs_error_def)
next
  case (Some q)
  then show ?thesis using runCbs_plain[OF Some, of "Some e" NoValue]
    by (simp add: runCbs_error_def)
qed

lemma apply_cb_requeue:
  assumes "slots c = []" "slotQ c = Some rest" "\<not> queue_full c rest" "truthy (first_arg args)"
  shows "apply_cb c (SlotsCb cmd cf args) None res =
           (None, c\<lparr>trace := trace c @ [Call (SlotsCb cmd cf args) None res],
                     slotQ := Some (rest @ [SlotsCb cmd cf args])\<rparr>)"
  using assms
  by (simp add: apply_cb_def slotsCb_def doCommand_def getSlots_def getSlots_start_def
        emit_def queue_full_def Let_def)

lemma apply_cb_no_key:
  assumes "\<not> truthy (first_arg args)"
  shows "apply_cb c (SlotsCb cmd cf args) None res =
           (None, c\<lparr>trace := trace c @
              [Call (SlotsCb cmd cf args) None res,
               Call (callback_of args) (Some (new_Error (''no key for command: '' @ cmd))) NoValue]\<rparr>)"
  using assms
  by (simp add: apply_cb_def slotsCb_def doCommand_def emit_def Let_def)

lemma looping_step:
  assumes "looping c" "slotQ c = Some (cb # rest)"
  shows "\<exists>c1. apply_cb (c\<lparr>slotQ := Some rest\<rparr>) cb None res = (None, c1) \<and> looping c1"
proof -
  from assms have s: "slots c = []" and b: "bounded c (cb # rest)"
    and w: "waits_for_slots cb \<or> list_ex waits_for_slots rest"
    by (auto simp: looping_def)
  have nf: "\<not> queue_full (c\<lparr>slotQ := Some rest\<rparr>) rest"
    using b by (auto simp: queue_full_def bounded_def split: option.splits)
  have b': "bounded c rest" "bounded c (rest @ [cb])"
    using b by (auto simp: bounded_def split: option.splits)
  show ?thesis
  proof (cases "waits_for_slots cb")
    case True
    then obtain cmd cf args where cb: "cb = SlotsCb cmd cf args" "truthy (first_arg args)"
      by (cases cb) auto
    have "apply_cb (c\<lparr>slotQ := Some rest\<rparr>) cb None res =
           (None, c\<lparr>slotQ := Some rest,
                     trace := trace c @ [Call (SlotsCb cmd cf args) None res],
                     slotQ := Some (rest @ [SlotsCb cmd cf args])\<rparr>)"
      unfolding cb(1) using apply_cb_requeue[OF _ _ nf cb(2), of cmd cf res] s by simp
    moreover have "looping (c\<lparr>slotQ := Some rest,
                     trace := trace c @ [Call (SlotsCb cmd cf args) None res],
                     slotQ := Some (rest @ [SlotsCb cmd cf args])\<rparr>)"
      using s b'(2) cb by (simp add: looping_def bounded_def)
    ultimately show ?thesis by blast
  next
    case False
    with w have r: "list_ex waits_for_slots rest" by simp
    have l: "looping (c\<lparr>slotQ := Some rest, trace := t\<rparr>)" for t
      using s b'(1) r by (simp add: looping_def bounded_def)
    show ?thesis
    proof (cases "is_SlotsCb cb")
      case True
      then obtain cmd cf args where cb: "cb = SlotsCb cmd cf args" by (cases cb) auto
      with False have nk: "\<not> truthy (first_arg args)" by simp
      show ?thesis unfolding cb using apply_cb_no_key[OF nk, of "c\<lparr>slotQ := Some rest\<rparr>" cmd cf res] l
        by simp
    next
      case nf: False
      then show ?thesis using apply_cb_plain[of cb None "c\<lparr>slotQ := Some rest\<rparr>" res] l
        by (simp add: emit_def)
    qed
  qed
qed

lemma looping_never_ends:
  assumes "looping c"
  shows "runCbs c None res = None"
proof (rule ccontr)
  assume "runCbs c None res \<noteq> None"
  then obtain y where y: "runCbs c None res = Some y" by auto
  have "\<not> (err = None \<and> looping c)" if "runCbs c err res = Some y" for c err res y
  proof (rule runCbs.raw_induct[where P="\<lambda>c err res y. \<not> (err = None \<and> looping c)", OF _ that], goal_cases)
    case (1 f c err res y)
    show ?case
    proof
      assume a: "err = None \<and> looping c"
      then obtain q where q: "slotQ c = Some q" "list_ex waits_for_slots q"
        by (auto simp: looping_def split: option.splits)
      then obtain cb rest where cr: "q = cb # rest" by (cases q) auto
      from looping_step[OF _ q(1)[unfolded cr], of res] a obtain c1 where
        c1: "apply_cb (c\<lparr>slotQ := Some rest\<rparr>) cb None res = (None, c1)" "looping c1"
        by blast
      from 1(2) q(1) cr a c1(1) have "f c1 None res = Some y" by simp
      from 1(1)[OF this] c1(2) show False by simp
    qed
  qed
  from this[OF y] assms show False by simp
qed

subsection \<open>One refresh at a time\<close>

lemma same_refresh_refl [simp]: "same_refresh c c"
  by (simp add: same_refresh_def)

lemma same_refresh_trans: "same_refresh a b \<Longrightarrow> same_refresh b c \<Longrightarrow> same_refresh a c"
  by (simp add: same_refresh_def)

lemma same_refresh_coalesced: "same_refresh c c' \<Longrightarrow> coalesced c \<Longrightarrow> coalesced c'"
  by (simp add: same_refresh_def coalesced_def)

lemma same_refresh_simple [simp]:
  "same_refresh c (c\<lparr>trace := t\<rparr>)"
  "same_refresh c (c\<lparr>slots := s\<rparr>)"
  "same_refresh c (c\<lparr>clients := cl\<rparr>)"
  "same_refresh c (c\<lparr>connections := cn\<rparr>)"
  "same_refresh c (c\<lparr>rands := rs\<rparr>)"
  "same_refresh c (c\<lparr>ready := b\<rparr>)"
  "same_refresh c (c\<lparr>quitting := b\<rparr>)"
  "same_refresh c (c\<lparr>ended := b\<rparr>)"
  "same_refresh c (emit es c)"
  by (simp_all add: same_refresh_def emit_def)

lemma getClient_same: "same_refresh c (fst (getClient c port host))"
  by (simp add: same_refresh_def getClient_fields)

lemma getRandomConnection_same: "same_refresh c (snd (getRandomConnection c ex))"
  by (simp add: same_refresh_def)

lemma runCbs_error_coalesced: "refreshes c = [] \<Longrightarrow> coalesced (snd (runCbs_error c e))"
  by (auto simp: runCbs_error_def coalesced_def split: option.splits)

lemma tryClient_coalesced:
  assumes "refreshes c = []" "slotQ c \<noteq> None"
  shows "coalesced (snd (tryClient c r))"
proof -
  define c0 where "c0 = (if timer r then emit [ClearTimeout] c else c)"
  obtain x c1 where g: "getRandomConnection c0 (Some (exclude r)) = (x, c1)"
    by (cases "getRandomConnection c0 (Some (exclude r))")
  have s0: "refreshes c0 = []" "slotQ c0 \<noteq> None" using assms by (simp_all add: c0_def emit_def)
  have s1: "refreshes c1 = []" "slotQ c1 \<noteq> None"
    using getRandomConnection_fields(2,3)[of c0 "Some (exclude r)"] g s0 by simp_all
  show ?thesis
  proof (cases "quitting c0")
    case True
    then show ?thesis using runCbs_error_coalesced[OF s0(1)]
      by (simp add: tryClient_def c0_def[symmetric] Let_def)
  next
    case False
    show ?thesis
    proof (cases x)
      case None
      with False g show ?thesis using runCbs_error_coalesced[OF s1(1)]
        by (simp add: tryClient_def c0_def[symmetric] Let_def)
    next
      case (Some cid)
      with False g s1 show ?thesis
        by (simp add: tryClient_def c0_def[symmetric] Let_def coalesced_def)
    qed
  qed
qed

lemma getSlots_start_coalesced:
  assumes "refreshes c = []" "slotQ c \<noteq> None"
  shows "coalesced (snd (getSlots_start False c))"
proof (cases "ready c \<or> quitting c")
  case True
  then show ?thesis using tryClient_coalesced[OF assms]
    by (simp add: getSlots_start_def Let_def)
next
  case False
  then show ?thesis using assms
    by (auto simp: getSlots_start_def Let_def coalesced_def split: option.splits)
qed

lemma getSlots_coalesced:
  assumes "coalesced c"
  shows "coalesced (snd (getSlots c cb))"
proof (cases "slotQ c")
  case None
  with assms have r: "refreshes c = []" by (simp add: coalesced_def)
  have q: "\<not> queue_full c []" by (auto simp: queue_full_def split: option.splits)
  show ?thesis
  proof (cases cb)
    case n: None
    show ?thesis using None n getSlots_start_coalesced[of "c\<lparr>slotQ := Some []\<rparr>"] r
      by (simp add: getSlots_def Let_def)
  next
    case (Some f)
    show ?thesis using None Some q getSlots_start_coalesced[of "c\<lparr>slotQ := Some [f]\<rparr>"] r
      by (simp add: getSlots_def Let_def)
  qed
next
  case (Some q)
  with assms show ?thesis
    by (auto simp: getSlots_def getSlots_start_def Let_def coalesced_def queue_full_def
             split: option.splits list.splits)
qed

lemma remove_nth_single: "length xs \<le> 1 \<Longrightarrow> i < length xs \<Longrightarrow> remove_nth i xs = []"
  by (cases xs) (auto simp: remove_nth_def)

lemma readyTimeoutFired_coalesced:
  assumes "coalesced c"
  shows "coalesced (snd (readyTimeoutFired c i))"
proof (cases "i < length (refreshes c) \<and> phase (refreshes c ! i) = AwaitReady \<and> timer (refreshes c ! i)")
  case False
  with assms show ?thesis by (auto simp: readyTimeoutFired_def)
next
  case True
  with assms have e: "remove_nth i (refreshes c) = []" "slotQ c \<noteq> None"
    by (auto simp: coalesced_def remove_nth_single)
  show ?thesis using True e runCbs_error_coalesced[of "c\<lparr>refreshes := []\<rparr>"]
    by (simp add: readyTimeoutFired_def)
qed

lemma getClients_same: "same_refresh c (fst (getClients c nodes seen))"
proof (induction nodes arbitrary: c seen)
  case Nil
  then show ?case by simp
next
  case (Cons nd nodes)
  obtain host port where nd: "nd = (host, port)" by (cases nd)
  have a: "same_refresh c (fst (getClient c (Some port) host))" by (rule getClient_same)
  have b: "same_refresh (fst (getClient c (Some port) host))
             (fst (getClients (fst (getClient c (Some port) host)) nodes (seen @ [host @ '':'' @ port])))"
    by (rule Cons.IH)
  show ?case using same_refresh_trans[OF a b] nd by (simp add: split_beta)
qed

lemma load_ranges_same: "same_refresh c (fst (load_ranges c ranges seen))"
proof (induction ranges arbitrary: c seen)
  case Nil
  then show ?case by simp
next
  case (Cons rg ranges)
  obtain start "end" nodes where rg: "rg = (start, end, nodes)" by (cases rg)
  obtain ca cids seena where g: "getClients c nodes seen = (ca, cids, seena)"
    by (cases "getClients c nodes seen") auto
  have a: "same_refresh c ca" using getClients_same[of c nodes seen] g by simp
  have b: "same_refresh ca (ca\<lparr>slots := fill_range (slots ca) start end cids\<rparr>)" by simp
  note d = Cons.IH[of "ca\<lparr>slots := fill_range (slots ca) start end cids\<rparr>" seena]
  show ?case using same_refresh_trans[OF same_refresh_trans[OF a b] d] rg g by simp
qed

lemma prune_same: "same_refresh c (prune is seen c)"
proof (induction "is" arbitrary: c)
  case Nil
  then show ?case by simp
next
  case (Cons i "is")
  define c1 where "c1 = (case connection c i of
          None \<Rightarrow> c
        | Some cid \<Rightarrow>
            if i \<in> set seen then c
            else c\<lparr>trace := trace c @ [ClientQuit cid False],
                   connections := assign i None (connections c)\<rparr>)"
  have a: "same_refresh c c1" by (simp add: c1_def same_refresh_def split: option.splits)
  show ?case using same_refresh_trans[OF a Cons.IH[of c1]] by (simp add: c1_def)
qed

lemma select_index_same: "same_refresh c (snd (select_index c cf n))"
  by (simp add: select_index_def same_refresh_def Let_def split_beta)

lemma select_slot_same: "same_refresh c (snd (select_slot c slot cf))"
proof -
  have a: "same_refresh c c1" if "select_index c cf n = (i, c1)" for n i c1
    using select_index_same[of c cf n] that by simp
  have b: "same_refresh c (snd (getRandomConnection c None))" by (rule getRandomConnection_same)
  show ?thesis using b
    by (auto simp: select_slot_def Let_def set_readOnly_def emit_def same_refresh_def
             split: option.splits prod.splits dest: a)
qed

lemma selectClient_same: "selectClient c key cf = Inr (r, c1) \<Longrightarrow> same_refresh c c1"
  using select_slot_same[of c _ cf]
  by (auto simp: selectClient_def Let_def split: jsval.splits list.splits) (metis snd_conv)+

lemma rebuild_same: "same_refresh c (rebuild c ranges)"
proof -
  obtain c1 seen where l: "load_ranges (c\<lparr>slots := []\<rparr>) ranges [] = (c1, seen)"
    by (cases "load_ranges (c\<lparr>slots := []\<rparr>) ranges []")
  have s0: "same_refresh c (c\<lparr>slots := []\<rparr>)" by simp
  have s1: "same_refresh (c\<lparr>slots := []\<rparr>) c1"
    using load_ranges_same[of "c\<lparr>slots := []\<rparr>" ranges "[]"] l by simp
  have s2: "same_refresh c1 (prune (map fst (connections c1)) seen c1)" by (rule prune_same)
  show ?thesis using same_refresh_trans[OF same_refresh_trans[OF s0 s1] s2] l
    by (simp add: rebuild_def)
qed

lemma getSlots_running:
  assumes "slotQ c = Some q"
  shows "refreshes (snd (getSlots c cb)) = refreshes c \<and>
         enumerations (trace (snd (getSlots c cb))) = enumerations (trace c) \<and>
         slotQ (snd (getSlots c cb)) \<noteq> None"
  using assms
  by (auto simp: getSlots_def getSlots_start_def Let_def enumerations_def
           split: option.splits list.splits)

text \<open>
  While the queue exists, neither a command nor a callback shifted off the queue starts a
  refresh or sends the enumeration command.
\<close>

lemma doCommand_running:
  assumes "slotQ c \<noteq> None"
  shows "refreshes (fst (snd (doCommand c cmd cf args))) = refreshes c \<and>
         slotQ (fst (snd (doCommand c cmd cf args))) \<noteq> None"
proof (cases "\<not> truthy (first_arg args)")
  case True
  with assms show ?thesis by (simp add: doCommand_def Let_def emit_def)
next
  case False
  from assms obtain q where q: "slotQ c = Some q" by auto
  show ?thesis
  proof (cases "slots c = []")
    case True
    with False getSlots_running[OF q, of "Some (SlotsCb cmd cf args)"] show ?thesis
      by (simp add: doCommand_def Let_def split_beta)
  next
    case ne: False
    show ?thesis
    proof (cases "selectClient c (first_arg args) cf")
      case (Inl x)
      with False ne assms show ?thesis by (simp add: doCommand_def Let_def)
    next
      case (Inr p)
      obtain r c1 where p: "p = (r, c1)" by (cases p)
      have "refreshes c1 = refreshes c \<and> slotQ c1 = slotQ c"
        using selectClient_same[OF Inr[unfolded p]] by (simp add: same_refresh_def)
      with False ne Inr p assms show ?thesis
        by (cases r) (simp_all add: doCommand_def Let_def emit_def)
    qed
  qed
qed

lemma apply_cb_running:
  assumes "slotQ c \<noteq> None"
  shows "refreshes (snd (apply_cb c cb err res)) = refreshes c"
proof -
  have a: "slotQ (emit [Call cb err res] c) \<noteq> None" using assms by (simp add: emit_def)
  have r: "refreshes (emit [Call cb err res] c) = refreshes c" by (simp add: emit_def)
  show ?thesis using doCommand_running[OF a] r
    by (auto simp: apply_cb_def slotsCb_def Let_def split: callback.splits option.splits prod.splits)
       (metis fst_conv snd_conv)+
qed

lemma runCbs_refreshes:
  assumes "runCbs c err res = Some y"
  shows "refreshes (snd y) = refreshes c"
proof (rule runCbs.raw_induct[where P="\<lambda>c err res y. refreshes (snd y) = refreshes c", OF _ assms], goal_cases)
  case (1 f c err res y)
  show ?case
  proof (cases "slotQ c")
    case None
    with 1(2) show ?thesis by auto
  next
    case (Some q)
    show ?thesis
    proof (cases q)
      case Nil
      with Some 1(2) show ?thesis by auto
    next
      case (Cons cb rest)
      obtain x c1 where a: "apply_cb (c\<lparr>slotQ := Some rest\<rparr>) cb err res = (x, c1)"
        by (cases "apply_cb (c\<lparr>slotQ := Some rest\<rparr>) cb err res")
      have k: "refreshes c1 = refreshes c"
        using apply_cb_running[of "c\<lparr>slotQ := Some rest\<rparr>" cb err res] a by simp
      show ?thesis
      proof (cases x)
        case None
        with Some Cons a 1(2) have "f c1 err res = Some y" by simp
        from 1(1)[OF this] k show ?thesis by simp
      next
        case (Some e)
        with \<open>slotQ c = Some q\<close> Cons a 1(2) have "y = (x, c1)" by simp
        with k show ?thesis by simp
      qed
    qed
  qed
qed

lemma slotsReply_coalesced:
  assumes "coalesced c" "slotsReply c i err ranges = Some (x, c')"
  shows "coalesced c'"
proof (cases "i < length (refreshes c)")
  case False
  with assms show ?thesis by (simp add: slotsReply_def)
next
  case True
  define c0 where "c0 = c\<lparr>refreshes := remove_nth i (refreshes c)\<rparr>"
  have e: "refreshes c0 = []" "slotQ c0 \<noteq> None"
    using True assms(1) by (auto simp: c0_def coalesced_def remove_nth_single)
  show ?thesis
  proof (cases "phase (refreshes c ! i)")
    case AwaitReady
    with True assms show ?thesis by (simp add: slotsReply_def Let_def)
  next
    case (AwaitReply cid)
    show ?thesis
    proof (cases err)
      case (Some e')
      with True AwaitReply assms(2) obtain r where "tryClient c0 r = (x, c')"
        by (auto simp: slotsReply_def Let_def c0_def[symmetric])
      with tryClient_coalesced[OF e, of r] show ?thesis by simp
    next
      case None
      define c2 where "c2 = rebuild c0 ranges"
      have e2: "refreshes c2 = []"
        using rebuild_same[of c0 ranges] e by (simp add: same_refresh_def c2_def)
      have "runCbs c2 None (SlotMap (slots c2)) = Some (x, c')"
        using True AwaitReply None assms(2) by (simp add: slotsReply_def Let_def c0_def c2_def)
      from runCbs_refreshes[OF this] e2 show ?thesis by (simp add: coalesced_def)
    qed
  qed
qed

lemma run_listeners_coalesced:
  "coalesced c \<Longrightarrow> set ls \<subseteq> set (refreshes c) \<Longrightarrow> distinct ls \<Longrightarrow>
   coalesced (snd (run_listeners ls c))"
proof (induction ls arbitrary: c)
  case Nil
  then show ?case by simp
next
  case (Cons r ls)
  from Cons.prems have single: "refreshes c = [r]" "slotQ c \<noteq> None"
    by (cases "refreshes c"; auto simp: coalesced_def)+
  with Cons.prems have ls: "ls = []" by (cases ls) auto
  have "coalesced (snd (tryClient (c\<lparr>refreshes := remove1 r (refreshes c)\<rparr>) r))"
    by (rule tryClient_coalesced) (simp_all add: single)
  then show ?case using ls
    by (cases "tryClient (c\<lparr>refreshes := remove1 r (refreshes c)\<rparr>) r")
       (auto split: option.splits)
qed

lemma update_client_same: "same_refresh c (update_client c cid f)"
  by (simp add: update_client_def same_refresh_def)

lemma onReady_coalesced:
  assumes "coalesced c"
  shows "coalesced (snd (onReady c cid))"
proof -
  define c1 where "c1 = update_client c cid (\<lambda>cli. cli\<lparr>is_ready := True, connected := True\<rparr>)"
  have c1: "coalesced c1"
    using same_refresh_coalesced[OF update_client_same assms] by (simp add: c1_def)
  define c2 where "c2 = emit [Emit ''ready'' None] (c1\<lparr>ready := True\<rparr>)"
  have c2: "coalesced c2" "refreshes c2 = refreshes c1"
    using c1 by (simp_all add: c2_def coalesced_def emit_def)
  have d: "distinct (filter (\<lambda>r. phase r = AwaitReady) (refreshes c1))"
    using c1 by (cases "refreshes c1") (auto simp: coalesced_def)
  have "coalesced (snd (run_listeners (filter (\<lambda>r. phase r = AwaitReady) (refreshes c1)) c2))"
    by (rule run_listeners_coalesced) (use c2 d in auto)
  then show ?thesis using c1
    by (simp add: onReady_def Let_def c1_def[symmetric] c2_def[symmetric])
qed

lemma onError_coalesced:
  assumes "coalesced c"
  shows "coalesced (snd (onError c cid e))"
proof -
  have a: "coalesced (emit [Emit ''connectionError'' (Some e)]
             (if code e = Some ''CONNECTION_BROKEN''
              then c\<lparr>connections := assign (address_of c cid) None (connections c)\<rparr> else c))"
    using assms by (simp add: coalesced_def emit_def)
  show ?thesis using getSlots_coalesced[OF a, of None] assms
    by (simp add: onError_def Let_def) (simp add: coalesced_def emit_def)
qed

lemma onEnd_coalesced: "coalesced c \<Longrightarrow> coalesced (onEnd c cid)"
  by (simp add: onEnd_def Let_def coalesced_def emit_def update_client_def)

lemma afterEnd_coalesced: "coalesced c \<Longrightarrow> coalesced (afterEnd c cid)"
  by (simp add: afterEnd_def Let_def coalesced_def emit_def update_client_def)

lemma doCommand_coalesced:
  assumes "coalesced c"
  shows "coalesced (fst (snd (doCommand c cmd cf args)))"
proof (cases "\<not> truthy (first_arg args)")
  case True
  with assms show ?thesis by (simp add: doCommand_def Let_def coalesced_def emit_def)
next
  case False
  show ?thesis
  proof (cases "slots c = []")
    case True
    with False getSlots_coalesced[OF assms, of "Some (SlotsCb cmd cf args)"] show ?thesis
      by (simp add: doCommand_def Let_def split_beta)
  next
    case ne: False
    show ?thesis
    proof (cases "selectClient c (first_arg args) cf")
      case (Inl x)
      with False ne assms show ?thesis by (simp add: doCommand_def Let_def)
    next
      case (Inr p)
      obtain r c1 where p: "p = (r, c1)" by (cases p)
      have "coalesced c1" using selectClient_same[OF Inr[unfolded p]] assms
        by (rule same_refresh_coalesced)
      then have "coalesced (emit es c1)" for es by (simp add: coalesced_def emit_def)
      with False ne Inr p show ?thesis
        by (cases r) (simp_all add: doCommand_def Let_def)
    qed
  qed
qed

lemma emit_coalesced [simp]: "coalesced (emit es c) = coalesced c"
  by (simp add: coalesced_def emit_def)

lemma trace_coalesced [simp]: "coalesced (c\<lparr>trace := t\<rparr>) = coalesced c"
  by (simp add: coalesced_def)

lemma commandReply_coalesced:
  assumes "coalesced c"
  shows "coalesced (fst (snd (commandReply c k err res)))"
proof (cases err)
  case None
  with assms show ?thesis by (simp add: commandReply_def)
next
  case (Some e)
  define moved where "moved = (take 4 (message e) \<noteq> ''ASK '' \<and> take 6 (message e) = ''MOVED '')"
  obtain x c0 where g: "(if moved then getSlots c None else (None, c)) = (x, c0)"
    by (cases "if moved then getSlots c None else (None, c)")
  have c0: "coalesced c0"
    using g getSlots_coalesced[OF assms, of None] assms by (auto split: if_splits)
  have gc: "coalesced (fst (getClient c0 port host))" for port host
    using same_refresh_coalesced[OF getClient_same c0] .
  show ?thesis
  proof (cases "message e = [] \<or> retries k = 0")
    case True
    with Some assms show ?thesis by (auto simp: commandReply_def Let_def)
  next
    case False
    show ?thesis
    proof (cases "moved \<or> take 4 (message e) = ''ASK ''")
      case True
      show ?thesis
      proof (cases x)
        case (Some y)
        with True False \<open>err = Some e\<close> g c0 show ?thesis
          unfolding moved_def by (auto simp: commandReply_def Let_def)
      next
        case None
        show ?thesis
        proof (cases "nth_opt (split_on (CHR '' '') (message e)) 2")
          case n: None
          with True False \<open>err = Some e\<close> g c0 None show ?thesis
            unfolding moved_def by (auto simp: commandReply_def Let_def)
        next
          case (Some addr)
          with True False \<open>err = Some e\<close> g None
            gc[of "nth_opt (split_on (CHR '':'') addr) 1" "hd (split_on (CHR '':'') addr)"]
          show ?thesis
            unfolding moved_def by (auto simp: commandReply_def Let_def split_beta)
        qed
      qed
    next
      case nr: False
      with False Some assms show ?thesis
        unfolding moved_def by (auto simp: commandReply_def Let_def)
    qed
  qed
qed

lemma retryFired_coalesced: "coalesced c \<Longrightarrow> coalesced (retryFired c k)"
  by (simp add: retryFired_def)

lemma defaultCb_coalesced: "coalesced c \<Longrightarrow> coalesced (defaultCb c err)"
  by (simp add: defaultCb_def split: option.splits)

lemma slotsCb_coalesced: "coalesced c \<Longrightarrow> coalesced (fst (snd (slotsCb c cmd cf args err)))"
  by (cases err) (simp_all add: slotsCb_def doCommand_coalesced)

lemma quit_loop_same: "same_refresh c (snd (quit_loop conns c))"
proof (induction conns arbitrary: c)
  case Nil
  then show ?case by simp
next
  case (Cons p conns)
  obtain i v where p: "p = (i, v)" by (cases p)
  show ?case
  proof (cases v)
    case None
    with p show ?thesis by simp
  next
    case (Some cid)
    have a: "same_refresh c (emit [ClientQuit cid True] c)" by simp
    show ?thesis using same_refresh_trans[OF a Cons.IH[of "emit [ClientQuit cid True] c"]] p Some
      by simp
  qed
qed

lemma quit_coalesced:
  assumes "coalesced c"
  shows "coalesced (snd (fst (quit c cb)))"
proof -
  have a: "coalesced (emit [ClearInterval] (c\<lparr>quitting := True\<rparr>))"
    using assms by (simp add: coalesced_def emit_def)
  show ?thesis using same_refresh_coalesced[OF quit_loop_same a]
    by (simp add: quit_def Let_def)
qed

lemma seed_same: "same_refresh c (seed srv c)"
proof (induction srv arbitrary: c)
  case Nil
  then show ?case by simp
next
  case (Cons p srv)
  obtain host port where p: "p = (host, port)" by (cases p)
  show ?case
    using same_refresh_trans[OF getClient_same[of c "Some port" host]
            Cons.IH[of "fst (getClient c (Some port) host)"]] p
    by simp
qed

lemma RedisClustr_coalesced: "coalesced (snd (RedisClustr cfg rs))"
proof -
  define c0 where "c0 = \<lparr>config = cfg, slots = [], connections = [], ready = False, quitting = False,
                 ended = False, slotQ = None, clients = [], refreshes = [], rands = rs,
                 trace = []\<rparr>"
  have "coalesced c0" by (simp add: coalesced_def c0_def)
  then have "coalesced (seed (servers cfg) c0)" using seed_same by (rule same_refresh_coalesced[rotated])
  then have "coalesced (snd (getSlots (seed (servers cfg) c0) None))" by (rule getSlots_coalesced)
  then show ?thesis
    by (cases "getSlots (seed (servers cfg) c0) None")
       (auto simp: RedisClustr_def Let_def c0_def[symmetric] split: option.splits)
qed

lemma reachable_coalesced: "reachable c \<Longrightarrow> coalesced c"
proof (induction rule: reachable.induct)
  case (created cfg rs)
  show ?case by (rule RedisClustr_coalesced)
next
  case (called_getSlots c cb)
  then show ?case by (simp add: getSlots_coalesced)
next
  case (timer_fired c i)
  then show ?case by (simp add: readyTimeoutFired_coalesced)
next
  case (slots_reply c i err ranges x c')
  then show ?case using slotsReply_coalesced by blast
next
  case (client_ready c cid)
  then show ?case by (simp add: onReady_coalesced)
next
  case (client_error c cid e)
  then show ?case by (simp add: onError_coalesced)
next
  case (client_end c cid)
  then show ?case by (simp add: onEnd_coalesced)
next
  case (client_ended c cid)
  then show ?case by (simp add: afterEnd_coalesced)
next
  case (command c cmd cf args)
  then show ?case by (simp add: doCommand_coalesced)
next
  case (command_reply c k err res)
  then show ?case by (simp add: commandReply_coalesced)
next
  case (retry_fired c k)
  then show ?case by (simp add: retryFired_coalesced)
next
  case (slots_callback c cmd cf args err)
  then show ?case by (simp add: slotsCb_coalesced)
next
  case (default_callback c err)
  then show ?case by (simp add: defaultCb_coalesced)
next
  case (quit_called c cb)
  then show ?case by (simp add: quit_coalesced)
qed

lemma in_flight_le: "in_flight c \<le> length (refreshes c)"
  by (simp add: in_flight_def)

subsection \<open>How a refresh ends\<close>

lemma quiet_refl [simp]: "quiet c c"
  by (simp add: quiet_def)

lemma quiet_trans: "quiet a b \<Longrightarrow> quiet b c \<Longrightarrow> quiet a c"
  by (simp add: quiet_def)

lemma quiet_settles: "quiet c c1 \<Longrightarrow> settles q c1 c' \<Longrightarrow> settles q c c'"
  by (simp add: quiet_def settles_def)

lemma calls_append [simp]: "calls (xs @ ys) = calls xs @ calls ys"
  by (simp add: calls_def)

lemma calls_Calls [simp]: "calls (map (\<lambda>cb. Call cb err res) q) = map (\<lambda>cb. Call cb err res) q"
  by (induction q) (simp_all add: calls_def)

lemma calls_simps [simp]:
  "calls [] = []"
  "calls (Call cb err p # es) = Call cb err p # calls es"
  "calls (Invoke cid cmd args # es) = calls es"
  "calls (SendCommand cid cmd sargs # es) = calls es"
  "calls (CreateClient port host # es) = calls es"
  "calls (SetTimeout d # es) = calls es"
  "calls (ClearTimeout # es) = calls es"
  "calls (ClearInterval # es) = calls es"
  "calls (SetInterval t # es) = calls es"
  "calls (Emit name eo # es) = calls es"
  "calls (ClientQuit cid b # es) = calls es"
  "calls (CallQuit cb eso # es) = calls es"
  by (simp_all add: calls_def)

lemma enumerations_append [simp]: "enumerations (xs @ ys) = enumerations xs + enumerations ys"
  by (simp add: enumerations_def)

lemma enumerations_simps [simp]:
  "enumerations [] = 0"
  "enumerations (Call cb err p # es) = enumerations es"
  by (simp_all add: enumerations_def)

lemma getClient_quiet: "quiet c (fst (getClient c port host))"
  by (simp add: quiet_def getClient_def Let_def split: option.splits)

lemma getClients_quiet: "quiet c (fst (getClients c nodes seen))"
proof (induction nodes arbitrary: c seen)
  case Nil
  then show ?case by simp
next
  case (Cons nd nodes)
  obtain host port where nd: "nd = (host, port)" by (cases nd)
  have a: "quiet c (fst (getClient c (Some port) host))" by (rule getClient_quiet)
  have b: "quiet (fst (getClient c (Some port) host))
             (fst (getClients (fst (getClient c (Some port) host)) nodes (seen @ [host @ '':'' @ port])))"
    by (rule Cons.IH)
  show ?case using quiet_trans[OF a b] nd by (simp add: split_beta)
qed

lemma load_ranges_quiet: "quiet c (fst (load_ranges c ranges seen))"
proof (induction ranges arbitrary: c seen)
  case Nil
  then show ?case by simp
next
  case (Cons rg ranges)
  obtain start "end" nodes where rg: "rg = (start, end, nodes)" by (cases rg)
  obtain ca cids seena where g: "getClients c nodes seen = (ca, cids, seena)"
    by (cases "getClients c nodes seen") auto
  have a: "quiet c ca" using getClients_quiet[of c nodes seen] g by simp
  have b: "quiet ca (ca\<lparr>slots := fill_range (slots ca) start end cids\<rparr>)" by (simp add: quiet_def)
  note d = Cons.IH[of "ca\<lparr>slots := fill_range (slots ca) start end cids\<rparr>" seena]
  show ?case using quiet_trans[OF quiet_trans[OF a b] d] rg g by simp
qed

lemma prune_quiet: "quiet c (prune is seen c)"
proof (induction "is" arbitrary: c)
  case Nil
  then show ?case by simp
next
  case (Cons i "is")
  define c1 where "c1 = (case connection c i of
          None \<Rightarrow> c
        | Some cid \<Rightarrow>
            if i \<in> set seen then c
            else c\<lparr>trace := trace c @ [ClientQuit cid False],
                   connections := assign i None (connections c)\<rparr>)"
  have a: "quiet c c1" by (simp add: c1_def quiet_def split: option.splits)
  show ?case using quiet_trans[OF a Cons.IH[of c1]] by (simp add: c1_def)
qed

lemma runCbs_error_settles: "slotQ c = Some q \<Longrightarrow> settles q c (snd (runCbs_error c e))"
  by (auto simp: runCbs_error_def settles_def)

lemma tryClient_settles:
  assumes "slotQ c = Some q"
  shows "settles q c (snd (tryClient c r))"
proof -
  define c0 where "c0 = (if timer r then emit [ClearTimeout] c else c)"
  obtain x c1 where g: "getRandomConnection c0 (Some (exclude r)) = (x, c1)"
    by (cases "getRandomConnection c0 (Some (exclude r))")
  have q0: "quiet c c0" "slotQ c0 = Some q" using assms by (simp_all add: c0_def emit_def quiet_def)
  have q1: "quiet c0 c1" "slotQ c1 = Some q"
    using getRandomConnection_fields(1,2)[of c0 "Some (exclude r)"] g q0 by (simp_all add: quiet_def)
  show ?thesis
  proof (cases "quitting c0")
    case True
    then show ?thesis using quiet_settles[OF q0(1) runCbs_error_settles[OF q0(2)]]
      by (simp add: tryClient_def c0_def[symmetric] Let_def)
  next
    case False
    show ?thesis
    proof (cases x)
      case None
      with False g show ?thesis
        using quiet_settles[OF quiet_trans[OF q0(1) q1(1)] runCbs_error_settles[OF q1(2)]]
        by (simp add: tryClient_def c0_def[symmetric] Let_def)
    next
      case (Some cid)
      have "settles q c1 (c1\<lparr>trace := trace c1 @ [SendCommand cid ''cluster'' [''slots'']],
                       refreshes := refreshes c1 @ [r\<lparr>phase := AwaitReply cid\<rparr>]\<rparr>)"
        using q1(2) by (simp add: settles_def)
      from quiet_settles[OF quiet_trans[OF q0(1) q1(1)] this] False g Some show ?thesis
        by (simp add: tryClient_def c0_def[symmetric] Let_def)
    qed
  qed
qed

lemma settles_same: "slotQ c = Some q \<Longrightarrow> settles q c c"
  by (simp add: settles_def)

lemma slotsReply_error_settles:
  assumes "slotQ c = Some q"
  shows "\<exists>y. slotsReply c i (Some e) ranges = Some y \<and> settles q c (snd y)"
proof (cases "i < length (refreshes c)")
  case False
  with assms show ?thesis by (simp add: slotsReply_def settles_same)
next
  case True
  define c0 where "c0 = c\<lparr>refreshes := remove_nth i (refreshes c)\<rparr>"
  have q0: "quiet c c0" "slotQ c0 = Some q" using assms by (simp_all add: c0_def quiet_def)
  show ?thesis
  proof (cases "phase (refreshes c ! i)")
    case AwaitReady
    with True assms show ?thesis by (simp add: slotsReply_def Let_def settles_same)
  next
    case (AwaitReply cid)
    with True show ?thesis
      using quiet_settles[OF q0(1) tryClient_settles[OF q0(2)]]
      by (simp add: slotsReply_def Let_def c0_def[symmetric])
  qed
qed

lemma readyTimeoutFired_settles:
  assumes "slotQ c = Some q"
  shows "settles q c (snd (readyTimeoutFired c i))"
proof -
  have a: "quiet c (c\<lparr>refreshes := remove_nth i (refreshes c)\<rparr>)" by (simp add: quiet_def)
  have b: "slotQ (c\<lparr>refreshes := remove_nth i (refreshes c)\<rparr>) = Some q" using assms by simp
  show ?thesis using quiet_settles[OF a runCbs_error_settles[OF b]] assms
    by (simp add: readyTimeoutFired_def settles_same)
qed

lemma onReady_settles:
  assumes "coalesced c" "slotQ c = Some q"
  shows "settles q c (snd (onReady c cid))"
proof -
  define c1 where "c1 = update_client c cid (\<lambda>cli. cli\<lparr>is_ready := True, connected := True\<rparr>)"
  have c1: "quiet c c1" "refreshes c1 = refreshes c" "slotQ c1 = Some q"
    using assms by (simp_all add: c1_def update_client_def quiet_def)
  define c2 where "c2 = emit [Emit ''ready'' None] (c1\<lparr>ready := True\<rparr>)"
  have c2: "quiet c1 c2" "refreshes c2 = refreshes c" "slotQ c2 = Some q"
    using c1 by (simp_all add: c2_def emit_def quiet_def)
  from assms(1) obtain r where r: "refreshes c = [] \<or> refreshes c = [r]"
    by (cases "refreshes c") (auto simp: coalesced_def)
  show ?thesis
  proof (cases "ready c1")
    case True
    then show ?thesis using c1 assms
      by (simp add: onReady_def Let_def c1_def[symmetric] settles_def quiet_def)
  next
    case False
    show ?thesis
    proof (cases "filter (\<lambda>r. phase r = AwaitReady) (refreshes c1)")
      case Nil
      with False show ?thesis
        using quiet_settles[OF quiet_trans[OF c1(1) c2(1)] settles_same[OF c2(3)]]
        by (simp add: onReady_def Let_def c1_def[symmetric] c2_def[symmetric])
    next
      case (Cons a as)
      with r c1 have f: "filter (\<lambda>r. phase r = AwaitReady) (refreshes c1) = [a]"
        by (auto split: if_splits)
      have q3: "quiet c2 (c2\<lparr>refreshes := remove1 a (refreshes c2)\<rparr>)"
               "slotQ (c2\<lparr>refreshes := remove1 a (refreshes c2)\<rparr>) = Some q"
        using c2 by (simp_all add: quiet_def)
      note t = quiet_settles[OF quiet_trans[OF quiet_trans[OF c1(1) c2(1)] q3(1)]
                 tryClient_settles[OF q3(2), of a]]
      show ?thesis using False f t
        by (cases "tryClient (c2\<lparr>refreshes := remove1 a (refreshes c2)\<rparr>) a")
           (auto simp: onReady_def Let_def c1_def[symmetric] c2_def[symmetric] split: option.splits)
    qed
  qed
qed

text \<open>
  The ready timer of a refresh that still waits for \<^verbatim>\<open>ready\<close>: every queued callback gets
  \<^verbatim>\<open>ready timeout reached\<close> and the queue is reset.
\<close>

lemma readyTimeoutFired_waiting:
  assumes "i < length (refreshes c)" "phase (refreshes c ! i) = AwaitReady" "timer (refreshes c ! i)"
    and "slotQ c = Some q"
  shows "readyTimeoutFired c i =
           (None, c\<lparr>refreshes := remove_nth i (refreshes c),
                     trace := trace c @
                       map (\<lambda>cb. Call cb (Some (new_Error ''ready timeout reached'')) NoValue) q,
                     slotQ := None\<rparr>)"
  using assms by (simp add: readyTimeoutFired_def runCbs_error_def)

lemma getSlots_sends:
  "in_flight (snd (getSlots c cb)) + enumerations (trace c) =
   in_flight c + enumerations (trace (snd (getSlots c cb)))"
proof -
  have r: "in_flight (snd (random_index c n)) = in_flight c" for c n
    by (simp add: in_flight_def)
  have g: "in_flight (snd (getRandomConnection c ex)) = in_flight c" for c ex
    by (simp add: in_flight_def)
  have t: "in_flight (snd (tryClient c r)) + enumerations (trace c) =
           in_flight c + enumerations (trace (snd (tryClient c r)))" for c r
  proof -
    define c0 where "c0 = (if timer r then emit [ClearTimeout] c else c)"
    obtain x c1 where gr: "getRandomConnection c0 (Some (exclude r)) = (x, c1)"
      by (cases "getRandomConnection c0 (Some (exclude r))")
    have e0: "in_flight c0 = in_flight c" "enumerations (trace c0) = enumerations (trace c)"
      by (simp_all add: c0_def emit_def in_flight_def enumerations_def)
    have e1: "in_flight c1 = in_flight c" "enumerations (trace c1) = enumerations (trace c)"
      using g[of c0 "Some (exclude r)"] getRandomConnection_fields(1)[of c0 "Some (exclude r)"] gr e0
      by simp_all
    show ?thesis using gr e0 e1
      by (cases x)
         (auto simp: tryClient_def c0_def[symmetric] Let_def runCbs_error_def in_flight_def enumerations_def
               split: option.splits)
  qed
  have s: "in_flight (snd (getSlots_start b c)) + enumerations (trace c) =
           in_flight c + enumerations (trace (snd (getSlots_start b c)))" for b c
    using t[of c] 
    by (auto simp: getSlots_start_def Let_def in_flight_def enumerations_def split: option.splits)
  have u: "in_flight (c\<lparr>slotQ := x\<rparr>) = in_flight c"
          "in_flight (c\<lparr>slotQ := x, trace := tr\<rparr>) = in_flight c"
          "in_flight (c\<lparr>slotQ := x, slotQ := y, trace := tr\<rparr>) = in_flight c" for x y tr
    by (simp_all add: in_flight_def)
  have v: "enumerations (tr @ [Call f e p]) = enumerations tr" for tr f e p
    by (simp add: enumerations_def)
  show ?thesis
  proof (cases cb)
    case None
    then show ?thesis using s[of "slotQ c \<noteq> None" "c\<lparr>slotQ := Some (case slotQ c of None \<Rightarrow> [] | Some q \<Rightarrow> q)\<rparr>"]
      by (simp add: getSlots_def Let_def u)
  next
    case (Some f)
    define q where "q = (case slotQ c of None \<Rightarrow> [] | Some q \<Rightarrow> q)"
    show ?thesis
    proof (cases "queue_full c q")
      case False
      then show ?thesis using Some s[of "slotQ c \<noteq> None" "c\<lparr>slotQ := Some (q @ [f])\<rparr>"]
        by (simp add: getSlots_def Let_def u q_def[symmetric])
    next
      case True
      show ?thesis
      proof (cases "queueShift (config c) \<noteq> Some False")
        case False
        with True Some show ?thesis
          by (simp add: getSlots_def Let_def u v q_def[symmetric])
      next
        case shift: True
        show ?thesis
        proof (cases q)
          case Nil
          with True Some shift show ?thesis
            by (simp add: getSlots_def Let_def u q_def[symmetric])
        next
          case (Cons eldest rest)
          with True Some shift
            s[of "slotQ c \<noteq> None" "c\<lparr>slotQ := Some (rest @ [f]),
                 trace := trace c @ [Call eldest (Some (new_Error ''max slot queue length reached'')) NoValue]\<rparr>"]
          show ?thesis
            by (simp add: getSlots_def Let_def u v q_def[symmetric])
        qed
      qed
    qed
  qed
qed

text \<open>
  Coalescing, as far as it holds.  In every state the cluster object can reach, at most one
  enumeration command awaits its reply; every enumeration command that a \<^verbatim>\<open>getSlots\<close> call
  sends is counted so.  While the queue exists, a call of \<^verbatim>\<open>getSlots\<close> starts nothing and
  sends nothing: it only queues its callback (appending it when the queue is not full; when
  it is, the policy of C5 applies).  A refresh that ends with an error (the reply to the
  enumeration is an error and no other node is left, the cluster is quitting, the ready
  timer fires) calls every queued callback with that error and resets the queue; so does a
  refresh that ends with a slot map, when every queued callback is a function of the
  caller.
\<close>

lemma coalescing:
  assumes "reachable c"
  shows "in_flight c \<le> 1 \<and>
         in_flight (snd (getSlots c cb)) + enumerations (trace c) =
           in_flight c + enumerations (trace (snd (getSlots c cb))) \<and>
         (slotQ c = Some q \<longrightarrow>
            refreshes (snd (getSlots c cb)) = refreshes c \<and>
            enumerations (trace (snd (getSlots c cb))) = enumerations (trace c) \<and>
            (\<not> queue_full c q \<longrightarrow> getSlots c (Some f) = (None, c\<lparr>slotQ := Some (q @ [f])\<rparr>)) \<and>
            (queue_full c q \<longrightarrow>
               slotQ (snd (getSlots c (Some f))) =
                 (if queueShift (config c) = Some False then Some q else Some (tl q @ [f]))) \<and>
            runCbs c (Some e) NoValue =
              Some (None, c\<lparr>trace := trace c @ map (\<lambda>cb. Call cb (Some e) NoValue) q, slotQ := None\<rparr>) \<and>
            ((\<forall>cb \<in> set q. \<not> is_SlotsCb cb) \<longrightarrow>
               runCbs c None res =
                 Some (None, c\<lparr>trace := trace c @ map (\<lambda>cb. Call cb None res) q, slotQ := None\<rparr>)) \<and>
            (\<exists>y. slotsReply c i (Some e) ranges = Some y \<and> settles q c (snd y)) \<and>
            settles q c (snd (readyTimeoutFired c i)) \<and>
            settles q c (snd (onReady c cid)))"
proof -
  note co = reachable_coalesced[OF assms]
  have a: "in_flight c \<le> 1"
    using co in_flight_le[of c] by (simp add: coalesced_def)
  have b: "(\<exists>y. slotsReply c i (Some e) ranges = Some y \<and> settles q c (snd y)) \<and>
           settles q c (snd (readyTimeoutFired c i)) \<and>
           settles q c (snd (onReady c cid))"
    if "slotQ c = Some q"
    using slotsReply_error_settles[OF that] readyTimeoutFired_settles[OF that] onReady_settles[OF co that]
    by simp
  have d: "slotQ (snd (getSlots c (Some f))) =
                 (if queueShift (config c) = Some False then Some q else Some (tl q @ [f]))"
    if "slotQ c = Some q" "queue_full c q"
    using getSlots_evict[OF that, of f] getSlots_reject[OF that, of f] that(1) by auto
  have r: "runCbs c (Some e) NoValue =
              Some (None, c\<lparr>trace := trace c @ map (\<lambda>cb. Call cb (Some e) NoValue) q, slotQ := None\<rparr>)"
    if "slotQ c = Some q"
    by (rule runCbs_plain[OF that]) simp
  have s: "runCbs c None res =
                 Some (None, c\<lparr>trace := trace c @ map (\<lambda>cb. Call cb None res) q, slotQ := None\<rparr>)"
    if "slotQ c = Some q" "\<forall>cb \<in> set q. \<not> is_SlotsCb cb"
    by (rule runCbs_plain[OF that(1)]) (use that(2) in simp)
  show ?thesis
    using a b d r s getSlots_running[of c q cb] getSlots_enqueue[of c q f] getSlots_sends[of c cb]
    by auto
qed

subsection \<open>A refresh that ends with a slot map\<close>

lemma running1_eq: "running1 = cluster_ready\<lparr>slotQ := Some [Fn 1]\<rparr>"
  by (simp add: running1_def cluster_ready_eq cfg0_def eval_defs)

lemma running2_eq: "running2 = cluster_ready\<lparr>slotQ := Some [Fn 1, Fn 2]\<rparr>"
  by (simp add: running2_def running1_eq cluster_ready_eq cfg0_def eval_defs)

lemma reachable_running1: "reachable running1"
  unfolding running1_def cluster_ready_def cluster0_def
  by (intro reachable.called_getSlots reachable.client_ready reachable.created)

text \<open>
  Two callers wait while the refresh is in flight; the reply names slots; both are called
  with the new slot map and the queue is reset.
\<close>

lemma slotsReply_running2:
  "slotsReply running2 0 None [(0, 1, [(''a'', ''1'')])] =
     Some (None, cluster1\<lparr>trace := trace cluster1 @
        [Call (Fn 1) None (SlotMap [Some [0], Some [0]]), Call (Fn 2) None (SlotMap [Some [0], Some [0]])]\<rparr>)"
  by (simp add: running2_eq cluster1_eq cluster_ready_eq eval_defs upt_rec runCbs_Cons apply_cb_def)

text \<open>
  A command waits while the refresh is in flight; the reply names the slot of its key; the
  closure is called and hands the command to the node client, inside the loop.
\<close>

lemma waiting_cmd_eq:
  "waiting_cmd = cluster_ready\<lparr>slotQ := Some [SlotsCb ''get'' \<lparr>conf_readOnly = False\<rparr> [Str ''la2'', Func 1]]\<rparr>"
  by (simp add: waiting_cmd_def doCommand_def first_arg_def cluster_ready_eq cfg0_def eval_defs)

lemma reachable_waiting_cmd: "reachable waiting_cmd"
  unfolding waiting_cmd_def cluster_ready_def cluster0_def
  by (intro reachable.command reachable.client_ready reachable.created)

lemma slotsReply_waiting_cmd:
  "slotsReply waiting_cmd 0 None [(0, 1, [(''a'', ''1'')])] =
     Some (None,
       cluster1\<lparr>trace := trace cluster1 @
         [Call (SlotsCb ''get'' \<lparr>conf_readOnly = False\<rparr> [Str ''la2'', Func 1]) None
            (SlotMap [Some [0], Some [0]]),
          Invoke 0 ''get'' [Str ''la2'']]\<rparr>)"
  by (simp add: waiting_cmd_eq cluster1_eq cluster_ready_eq eval_defs upt_rec runCbs_Cons
        apply_cb_def slotsCb_def doCommand_def first_arg_def callback_of_def argsCb_def
        selectClient_def slot_la2 select_slot_def select_index_def client_a_def cfg0_def)

text \<open>
  A command whose key is a number waits, and behind it another caller.  The closure calls
  \<^verbatim>\<open>doCommand\<close>, \<^verbatim>\<open>selectClient\<close> throws on \<^verbatim>\<open>key.indexOf\<close>, and the exception leaves the loop:
  the second caller is not called and the queue stays in place, with no refresh running.
\<close>

lemma waiting_num_eq:
  "waiting_num = cluster_ready\<lparr>slotQ := Some [SlotsCb ''get'' \<lparr>conf_readOnly = False\<rparr> [Num 5, Func 1], Fn 2]\<rparr>"
  by (simp add: waiting_num_def doCommand_def first_arg_def cluster_ready_eq cfg0_def eval_defs)

lemma slotsReply_waiting_num:
  "slotsReply waiting_num 0 None [(0, 1, [(''a'', ''1'')])] =
     Some (Some TypeError,
       cluster1\<lparr>slotQ := Some [Fn 2],
         trace := trace cluster1 @
         [Call (SlotsCb ''get'' \<lparr>conf_readOnly = False\<rparr> [Num 5, Func 1]) None
            (SlotMap [Some [0], Some [0]])]\<rparr>)"
  by (simp add: waiting_num_eq cluster1_eq cluster_ready_eq eval_defs upt_rec runCbs_Cons
        apply_cb_def slotsCb_def doCommand_def first_arg_def callback_of_def argsCb_def
        selectClient_def client_a_def cfg0_def)

lemma prune_keeps:
  "slots (prune is seen c) = slots c \<and> config (prune is seen c) = config c \<and>
   slotQ (prune is seen c) = slotQ c"
  by (induction "is" arbitrary: c) (auto split: option.splits)

lemma rebuild_empty:
  "slots (rebuild c []) = [] \<and> config (rebuild c []) = config c \<and> slotQ (rebuild c []) = slotQ c"
  using prune_keeps[of "map fst (connections c)" "[]" "c\<lparr>slots := []\<rparr>"]
  by (simp add: rebuild_def)

text \<open>
  C7.  The claim holds of the code as far as lemma \<open>coalescing\<close> goes; it fails where a
  refresh ends with a slot map.  There the loop of \<^verbatim>\<open>runCbs\<close> calls the queued callbacks
  while the queue is still in place, and a command that waits for the slot map is queued as
  a closure that calls \<^verbatim>\<open>doCommand\<close> again.  When the reply to the enumeration command is the
  empty list, the slot map is as empty as before: the closure is queued again, on the queue
  that is being drained, and the loop shifts it off again.  So whenever the empty reply
  arrives while the closure of a command with a key is queued, the handler of the reply
  does not return, and the queue is never reset.
\<close>

theorem empty_reply_never_returns:
  assumes "i < length (refreshes c)" and "phase (refreshes c ! i) = AwaitReply cid"
    and "slotQ c = Some q" and "SlotsCb cmd cf args \<in> set q" and "truthy (first_arg args)"
    and "bounded c q"
  shows "slotsReply c i None [] = None"
proof -
  define c2 where "c2 = rebuild (c\<lparr>refreshes := remove_nth i (refreshes c)\<rparr>) []"
  have f: "slots c2 = []" "config c2 = config c" "slotQ c2 = Some q"
    using rebuild_empty[of "c\<lparr>refreshes := remove_nth i (refreshes c)\<rparr>"] assms(3)
    by (simp_all add: c2_def)
  have w: "list_ex waits_for_slots q"
    using assms(4,5) by (auto simp: list_ex_iff intro!: bexI[of _ "SlotsCb cmd cf args"])
  have "looping c2"
    using f w assms(6) by (simp add: looping_def bounded_def)
  from looping_never_ends[OF this, of "SlotMap (slots c2)"] show ?thesis
    using assms(1,2) by (simp add: slotsReply_def Let_def c2_def)
qed

theorem empty_reply_never_returns_witness:
  "reachable waiting_cmd \<and> in_flight waiting_cmd = 1 \<and>
   slotQ waiting_cmd = Some [SlotsCb ''get'' \<lparr>conf_readOnly = False\<rparr> [Str ''la2'', Func 1]] \<and>
   slotsReply waiting_cmd 0 None [] = None"
proof -
  have h: "0 < length (refreshes waiting_cmd)" "phase (refreshes waiting_cmd ! 0) = AwaitReply 0"
    "slotQ waiting_cmd = Some [SlotsCb ''get'' \<lparr>conf_readOnly = False\<rparr> [Str ''la2'', Func 1]]"
    "SlotsCb ''get'' \<lparr>conf_readOnly = False\<rparr> [Str ''la2'', Func 1] \<in>
       set [SlotsCb ''get'' \<lparr>conf_readOnly = False\<rparr> [Str ''la2'', Func 1]]"
    "truthy (first_arg [Str ''la2'', Func 1])"
    "bounded waiting_cmd [SlotsCb ''get'' \<lparr>conf_readOnly = False\<rparr> [Str ''la2'', Func 1]]"
    by (simp_all add: waiting_cmd_eq cluster_ready_eq first_arg_def bounded_def cfg0_def)
  have i: "in_flight waiting_cmd = 1"
    by (simp add: in_flight_def waiting_cmd_eq cluster_ready_eq)
  show ?thesis
    using empty_reply_never_returns[OF h] reachable_waiting_cmd i h(3) by simp
qed


end
